theory Spec2Isabelle
  imports Complex_Main "HOL-Library.Multiset"
begin

unbundle bit_operations_syntax

section \<open>Strings, bytes and runes\<close>

text \<open>
  A Go string is a sequence of bytes; it is modelled by \<^typ>\<open>string\<close>, whose characters
  are 8-bit. \<open>len(s)\<close> is \<^term>\<open>length s\<close> and \<open>s[i:]\<close> is \<^term>\<open>drop i s\<close>.
  A rune is a code point; the values that occur are below \<open>0x110000\<close>, and \<open>rune\<close> is
  \<open>int32\<close>, so the type \<^typ>\<open>int\<close> holds them without wrap-around. Values of type \<open>float64\<close> (font sizes and
  coordinates) are modelled by \<^typ>\<open>real\<close>: comparisons are exact, rounding of sums and
  products is not modelled.
\<close>

type_synonym rune = int

definition byte :: "char \<Rightarrow> int" where
  "byte c = of_char c"

definition RuneError :: rune where
  "RuneError = 0xFFFD"

subsection \<open>unicode/utf8: DecodeRuneInString\<close>

text \<open>
  The table \<open>first\<close> of package \<open>unicode/utf8\<close>: information about the first byte of an
  encoding. \<open>0xF0\<close> (\<open>as\<close>) marks ASCII, \<open>0xF1\<close> (\<open>xx\<close>) an invalid first byte; otherwise
  the low three bits are the size of the encoding and the high four bits index
  \<open>acceptRanges\<close>, the range allowed for the second byte.
\<close>

definition first :: "int \<Rightarrow> int" where
  "first s0 =
     (if s0 < 0x80 then 0xF0
      else if s0 < 0xC2 then 0xF1
      else if s0 < 0xE0 then 0x02
      else if s0 = 0xE0 then 0x13
      else if s0 < 0xED then 0x03
      else if s0 = 0xED then 0x23
      else if s0 < 0xF0 then 0x03
      else if s0 = 0xF0 then 0x34
      else if s0 < 0xF4 then 0x04
      else if s0 = 0xF4 then 0x44
      else 0xF1)"

definition acceptRanges :: "int \<Rightarrow> int \<times> int" where
  "acceptRanges i =
     (if i = 0 then (0x80, 0xBF)
      else if i = 1 then (0xA0, 0xBF)
      else if i = 2 then (0x80, 0x9F)
      else if i = 3 then (0x90, 0xBF)
      else if i = 4 then (0x80, 0x8F)
      else (0, 0))"

text \<open>
  \<open>DecodeRuneInString(s)\<close> returns the first rune of \<open>s\<close> and its width in bytes:
  \<open>(RuneError, 0)\<close> for the empty string and \<open>(RuneError, 1)\<close> for an encoding that is
  invalid or cut short.
\<close>

definition DecodeRuneInString :: "string \<Rightarrow> rune \<times> nat" where
  "DecodeRuneInString s =
     (let n = length s in
      if n < 1 then (RuneError, 0)
      else
        let s0 = byte (s ! 0); x = first s0 in
        if x \<ge> 0xF0 then ((if x = 0xF1 then RuneError else s0), 1)
        else
          let sz = x AND 7; accept = acceptRanges (drop_bit 4 x) in
          if int n < sz then (RuneError, 1)
          else
            let s1 = byte (s ! 1) in
            if s1 < fst accept \<or> snd accept < s1 then (RuneError, 1)
            else if sz \<le> 2 then (push_bit 6 (s0 AND 0x1F) OR (s1 AND 0x3F), 2)
            else
              let s2 = byte (s ! 2) in
              if s2 < 0x80 \<or> 0xBF < s2 then (RuneError, 1)
              else if sz \<le> 3 then
                (push_bit 12 (s0 AND 0x0F) OR push_bit 6 (s1 AND 0x3F) OR (s2 AND 0x3F), 3)
              else
                let s3 = byte (s ! 3) in
                if s3 < 0x80 \<or> 0xBF < s3 then (RuneError, 1)
                else
                  (push_bit 18 (s0 AND 0x07) OR push_bit 12 (s1 AND 0x3F)
                     OR push_bit 6 (s2 AND 0x3F) OR (s3 AND 0x3F), 4))"

lemma first_cases:
  "first s0 \<in> {0xF0, 0xF1, 0x02, 0x13, 0x03, 0x23, 0x34, 0x04, 0x44}"
  by (simp add: first_def)

lemma DecodeRune_width_le4: "snd (DecodeRuneInString s) \<le> 4"
  by (simp add: DecodeRuneInString_def Let_def)

lemma DecodeRune_width_zero: "snd (DecodeRuneInString s) = 0 \<longleftrightarrow> s = []"
  by (cases s) (simp_all add: DecodeRuneInString_def Let_def)

lemma DecodeRune_width_le_length: "snd (DecodeRuneInString s) \<le> length s"
proof (cases s)
  case Nil
  then show ?thesis by (simp add: DecodeRuneInString_def)
next
  case (Cons c cs)
  consider "first (byte c) = 0xF0" | "first (byte c) = 0xF1" | "first (byte c) = 0x02"
    | "first (byte c) = 0x13" | "first (byte c) = 0x03" | "first (byte c) = 0x23"
    | "first (byte c) = 0x34" | "first (byte c) = 0x04" | "first (byte c) = 0x44"
    using first_cases [of "byte c"] by auto
  then show ?thesis
    by cases (auto simp: Cons DecodeRuneInString_def Let_def Suc_le_eq)
qed

lemma DecodeRune_progress: "s \<noteq> [] \<Longrightarrow> length s - snd (DecodeRuneInString s) < length s"
  using DecodeRune_width_zero [of s] by (cases s) auto

subsection \<open>unicode/utf8: encoding, and the conversion \<open>string(runes)\<close>\<close>

text \<open>
  \<open>string(runes)\<close> appends the UTF-8 encoding of every rune (\<open>utf8.AppendRune\<close>). The
  encoder switches on \<open>uint32(r)\<close>; a surrogate or a value above \<open>0x10FFFF\<close> (a
  negative rune is one, as \<open>uint32\<close>) is encoded as \<open>RuneError\<close>.
\<close>

definition encode3 :: "rune \<Rightarrow> string" where
  "encode3 r =
     [char_of (0xE0 OR drop_bit 12 r),
      char_of (0x80 OR (drop_bit 6 r AND 0x3F)),
      char_of (0x80 OR (r AND 0x3F))]"

definition EncodeRune :: "rune \<Rightarrow> string" where
  "EncodeRune r =
     (let i = (if r < 0 then r + 2 ^ 32 else r) in
      if i \<le> 0x7F then [char_of r]
      else if i \<le> 0x7FF then
        [char_of (0xC0 OR drop_bit 6 r), char_of (0x80 OR (r AND 0x3F))]
      else if i > 0x10FFFF \<or> (0xD800 \<le> i \<and> i \<le> 0xDFFF) then encode3 RuneError
      else if i \<le> 0xFFFF then encode3 r
      else
        [char_of (0xF0 OR drop_bit 18 r),
         char_of (0x80 OR (drop_bit 12 r AND 0x3F)),
         char_of (0x80 OR (drop_bit 6 r AND 0x3F)),
         char_of (0x80 OR (r AND 0x3F))])"

definition stringOfRunes :: "rune list \<Rightarrow> string" where
  "stringOfRunes runes = concat (map EncodeRune runes)"

subsection \<open>Ranging over a string\<close>

text \<open>
  \<open>for i, r := range s\<close> decodes \<open>s\<close> rune by rune as \<open>DecodeRuneInString\<close> does; an
  invalid byte yields \<open>RuneError\<close> and is one byte wide. \<open>rangeString\<close> lists each rune
  with the bytes it was decoded from.
\<close>

function rangeString :: "string \<Rightarrow> (rune \<times> string) list" where
  "rangeString s =
     (let d = DecodeRuneInString s; siz = snd d in
      if siz = 0 then [] else (fst d, take siz s) # rangeString (drop siz s))"
  by pat_completeness auto
termination
  by (relation "measure length") (auto simp: DecodeRune_width_zero DecodeRune_progress)

declare rangeString.simps [simp del]

definition RuneCountInString :: "string \<Rightarrow> nat" where
  "RuneCountInString s = length (rangeString s)"

definition ValidString :: "string \<Rightarrow> bool" where
  "ValidString s = (\<forall>(r, bs) \<in> set (rangeString s). \<not> (r = RuneError \<and> length bs = 1))"

section \<open>The libraries the program is linked with\<close>

text \<open>
  The tables of the Unicode standard (\<open>unicode.IsGraphic\<close>, \<open>unicode.ToLower\<close>), the
  stemmer (\<open>stemmer.Stem\<close>) and the embedded word list (the map \<open>words\<close>, filled by
  \<open>init\<close>) are not part of the program text; they are the fields of a record that every
  function of the model receives.
\<close>

record lib =
  IsGraphic :: "rune \<Rightarrow> bool"
  ToLowerRune :: "rune \<Rightarrow> rune"
  Stem :: "string \<Rightarrow> string"
  words :: "string \<Rightarrow> bool"

section \<open>The sanitizer: \<open>printable\<close>\<close>

text \<open>
  The loop of \<open>printable\<close> decodes one rune, appends one rune to \<open>runes\<close> and drops the
  decoded bytes, until the decoder reports width 0.
\<close>

definition space :: rune where
  "space = 32"

function printable_loop :: "lib \<Rightarrow> string \<Rightarrow> rune list \<Rightarrow> rune list" where
  "printable_loop L s runes =
     (let d = DecodeRuneInString s; r = fst d; siz = snd d in
      if siz = 0 then runes
      else if r = RuneError then printable_loop L (drop siz s) (runes @ [space])
      else if IsGraphic L r then printable_loop L (drop siz s) (runes @ [r])
      else printable_loop L (drop siz s) (runes @ [space]))"
  by pat_completeness auto
termination
  by (relation "measure (\<lambda>(L, s, runes). length s)")
    (auto simp: DecodeRune_width_zero DecodeRune_progress)

declare printable_loop.simps [simp del]

definition printable :: "lib \<Rightarrow> string \<Rightarrow> string" where
  "printable L s = stringOfRunes (printable_loop L s [])"

text \<open>The number of iterations of the loop of \<open>printable\<close> that decode a rune.\<close>

function decodeSteps :: "string \<Rightarrow> nat" where
  "decodeSteps s =
     (let siz = snd (DecodeRuneInString s) in
      if siz = 0 then 0 else Suc (decodeSteps (drop siz s)))"
  by pat_completeness auto
termination
  by (relation "measure length") (auto simp: DecodeRune_width_zero DecodeRune_progress)

declare decodeSteps.simps [simp del]

section \<open>Text runs and phrases\<close>

text \<open>\<open>pdf.Text\<close> of the reader library: one run of glyphs of the page.\<close>

record Text =
  Text_Font :: string
  Text_FontSize :: real
  Text_X :: real
  Text_Y :: real
  Text_W :: real
  Text_S :: string

text \<open>
  The struct \<open>phrase\<close>. The field \<open>length\<close> is \<open>p_length\<close> here and the builder \<open>b\<close> is
  its content \<open>p_b\<close>.
\<close>

record phrase =
  font :: string
  fontSize :: real
  spacing :: real
  prevx :: real
  prevy :: real
  p_length :: nat
  p_b :: string

definition spacingCoefficient :: real where
  "spacingCoefficient = 0.16"

definition newPhrase :: "lib \<Rightarrow> Text \<Rightarrow> phrase" where
  "newPhrase L t =
     \<lparr>font = Text_Font t,
      fontSize = Text_FontSize t,
      spacing = spacingCoefficient * Text_FontSize t,
      prevx = Text_X t + Text_W t,
      prevy = Text_Y t,
      p_length = length (Text_S t),
      p_b = printable L (Text_S t)\<rparr>"

text \<open>
  \<open>tryAppend\<close> mutates the phrase it is called on; the model returns the result of
  the call and the phrase after it.
\<close>

definition tryAppend :: "lib \<Rightarrow> phrase \<Rightarrow> Text \<Rightarrow> bool \<times> phrase" where
  "tryAppend L p t =
     (let fontFits = True;
          fontSizeFits = \<bar>Text_FontSize t - fontSize p\<bar> < 4.0;
          canAppend = fontSizeFits \<and> fontFits
      in
      if \<not> canAppend then (False, p)
      else
        let p1 = (if p_length p > 0
                  then (if Text_Y t < prevy p \<or> Text_X t - prevx p \<ge> spacing p
                        then p\<lparr>p_b := p_b p @ '' '', p_length := p_length p + 1\<rparr>
                        else p)
                  else p);
            p2 = p1\<lparr>p_b := p_b p1 @ printable L (Text_S t),
                      p_length := p_length p1 + length (Text_S t),
                      prevx := Text_X t + Text_W t,
                      prevy := Text_Y t\<rparr>
        in (True, p2))"

subsection \<open>\<open>String\<close>: the phrase as a single string\<close>

text \<open>
  \<open>unicode.IsSpace\<close>: the white space of Latin-1 and the code points with the property
  \<open>White_Space\<close> above it.
\<close>

definition IsSpace :: "rune \<Rightarrow> bool" where
  "IsSpace r =
     (if 0 \<le> r \<and> r \<le> 0xFF then r \<in> {0x09, 0x0A, 0x0B, 0x0C, 0x0D, 0x20, 0x85, 0xA0}
      else r = 0x1680 \<or> (0x2000 \<le> r \<and> r \<le> 0x200A) \<or> r = 0x2028 \<or> r = 0x2029
           \<or> r = 0x202F \<or> r = 0x205F \<or> r = 0x3000)"

text \<open>
  \<open>strings.FieldsFunc\<close> ranges over the string; \<open>start\<close> holds the bytes of the field
  that is open, if one is. \<open>strings.Fields(s)\<close> is \<open>FieldsFunc(s, unicode.IsSpace)\<close>; the
  library computes the same fields by a loop over bytes when \<open>s\<close> is ASCII.
\<close>

fun FieldsFunc_loop ::
  "(rune \<Rightarrow> bool) \<Rightarrow> (rune \<times> string) list \<Rightarrow> string option \<Rightarrow> string list \<Rightarrow> string list" where
  "FieldsFunc_loop f [] start spans =
     (case start of Some w \<Rightarrow> spans @ [w] | None \<Rightarrow> spans)"
| "FieldsFunc_loop f ((r, bs) # cs) start spans =
     (if f r then
        (case start of
           Some w \<Rightarrow> FieldsFunc_loop f cs None (spans @ [w])
         | None \<Rightarrow> FieldsFunc_loop f cs None spans)
      else
        (case start of
           None \<Rightarrow> FieldsFunc_loop f cs (Some bs) spans
         | Some w \<Rightarrow> FieldsFunc_loop f cs (Some (w @ bs)) spans))"

definition Fields :: "string \<Rightarrow> string list" where
  "Fields s = FieldsFunc_loop IsSpace (rangeString s) None []"

fun Join :: "string list \<Rightarrow> string \<Rightarrow> string" where
  "Join [] sep = []"
| "Join [e] sep = e"
| "Join (e # es) sep = e @ sep @ Join es sep"

definition String :: "phrase \<Rightarrow> string" where
  "String p =
     (let s = Join (Fields (p_b p)) '' '' in take (min 80 (length s)) s)"

section \<open>The dictionary check\<close>

definition wordsInDictPercent :: real where
  "wordsInDictPercent = 0.20"

text \<open>
  The class \<open>[[:alpha:]]\<close> of the regular expression is the ASCII letters. A byte of
  a multi-byte encoding is \<open>0x80\<close> or more, so matching on bytes and matching on runes
  agree.
\<close>

definition isAlpha :: "char \<Rightarrow> bool" where
  "isAlpha c = ((0x41 \<le> byte c \<and> byte c \<le> 0x5A) \<or> (0x61 \<le> byte c \<and> byte c \<le> 0x7A))"

text \<open>
  \<open>wordsExtractor.FindAllString(s, -1)\<close> for the expression \<open>[[:alpha:]]{3,30}\<close>: the
  successive leftmost matches, none overlapping the one before. The repetition is
  greedy: a match takes the letters at its start, 30 at most. Where fewer than 3
  letters follow, there is no match and the search goes on one byte further.
\<close>

function FindAllString :: "string \<Rightarrow> string list" where
  "FindAllString s =
     (if s = [] then []
      else
        let m = takeWhile isAlpha (take 30 s) in
        if length m \<ge> 3 then m # FindAllString (drop (length m) s)
        else FindAllString (drop 1 s))"
  by pat_completeness auto
termination
  by (relation "measure length") (auto simp: neq_Nil_conv)

declare FindAllString.simps [simp del]

text \<open>
  \<open>strings.ToLower\<close>: a string of ASCII bytes is mapped byte by byte; any other string
  is mapped rune by rune through \<open>unicode.ToLower\<close> (\<open>strings.Map\<close>), where an invalid
  byte becomes the encoding of \<open>RuneError\<close>.
\<close>

definition lowerByte :: "char \<Rightarrow> char" where
  "lowerByte c = (if 0x41 \<le> byte c \<and> byte c \<le> 0x5A then char_of (byte c + 32) else c)"

definition ToLower :: "lib \<Rightarrow> string \<Rightarrow> string" where
  "ToLower L s =
     (if \<forall>c \<in> set s. byte c < 0x80 then map lowerByte s
      else stringOfRunes (map (\<lambda>(r, bs). ToLowerRune L r) (rangeString s)))"

text \<open>The loop of \<open>dictCheck\<close> over the matches; the state is \<open>(tlwords, tlwordsInDict)\<close>.\<close>

fun dictCheck_loop :: "lib \<Rightarrow> string list \<Rightarrow> nat \<times> nat \<Rightarrow> nat \<times> nat" where
  "dictCheck_loop L [] (tlwords, tlwordsInDict) = (tlwords, tlwordsInDict)"
| "dictCheck_loop L (w # ws) (tlwords, tlwordsInDict) =
     dictCheck_loop L ws
       (tlwords + 1,
        (if words L (ToLower L w) \<or> words L (ToLower L (Stem L w))
         then tlwordsInDict + 1 else tlwordsInDict))"

definition dictCheck :: "lib \<Rightarrow> string \<Rightarrow> bool" where
  "dictCheck L s =
     (let (tlwords, tlwordsInDict) = dictCheck_loop L (FindAllString s) (0, 0) in
      tlwords > 0 \<and> real tlwordsInDict / real tlwords \<ge> wordsInDictPercent)"

section \<open>Ranking: \<open>titleFromPhrases\<close>\<close>

text \<open>\<open>cmp.Compare\<close> on numbers that are not NaN.\<close>

definition cmp_Compare :: "real \<Rightarrow> real \<Rightarrow> int" where
  "cmp_Compare x y = (if x < y then -1 else if x > y then 1 else 0)"

text \<open>The comparison function that \<open>titleFromPhrases\<close> hands to \<open>slices.SortFunc\<close>.\<close>

definition byFontSize :: "phrase \<Rightarrow> phrase \<Rightarrow> int" where
  "byFontSize a b = cmp_Compare (fontSize b) (fontSize a)"

text \<open>
  \<open>slices.SortFunc\<close> belongs to the Go library; in \<open>titleFromPhrases\<close> it is the parameter
  \<open>sortFunc\<close>, so that the ranker can be stated against what the library promises (the
  slice is sorted, its elements are the same). The algorithm of the library is
  modelled further down. The sort is in place: the model returns, with the title,
  the slice as the caller finds it after the call. The length of a slice does not
  change when its elements are permuted, so \<open>len(phrases)\<close> is the length of the
  argument.
\<close>

type_synonym sortFunc = "(phrase \<Rightarrow> phrase \<Rightarrow> int) \<Rightarrow> phrase list \<Rightarrow> phrase list"

definition titleFromPhrases :: "sortFunc \<Rightarrow> lib \<Rightarrow> phrase list \<Rightarrow> string \<times> phrase list" where
  "titleFromPhrases sortFunc L phrases0 =
     (let phrases = sortFunc byFontSize phrases0 in
      if length phrases0 = 0 then ([], phrases)
      else
        let tl = String (phrases ! 0);
            tl = (if length tl < 4
                  then (if length phrases0 > 1 then String (phrases ! 1) else [])
                  else tl)
        in (if dictCheck L tl then (tl, phrases) else ([], phrases)))"

section \<open>Building the phrases: \<open>phrasesOfDoc\<close>\<close>

text \<open>
  The reader \<open>rsc.io/pdf\<close> is outside the program. A call into it returns or
  panics; a panic carries a value that is an \<open>error\<close> (rendered by \<open>Error()\<close>) or
  something else (rendered by \<open>fmt.Sprint\<close>).
\<close>

datatype panic = PanicError string | PanicValue string

record Page =
  Page_IsNull :: bool
  Page_Content :: "panic + Text list"

record Reader =
  NumPage :: "panic + int"
  Page :: "int \<Rightarrow> panic + Page"

text \<open>
  The outcome of \<open>docgen()\<close>: a panic, an error (its message) or a reader. An error of
  the program is modelled by its message.
\<close>

type_synonym docgen = "panic + (string + Reader)"

text \<open>The loop over the runs of the first page (the open phrase is \<open>currPhrase\<close>).\<close>

fun phrases_loop :: "lib \<Rightarrow> Text list \<Rightarrow> phrase option \<Rightarrow> phrase list \<Rightarrow> phrase list" where
  "phrases_loop L [] currPhrase phrases =
     (case currPhrase of Some p \<Rightarrow> phrases @ [p] | None \<Rightarrow> phrases)"
| "phrases_loop L (t # ts) None phrases = phrases_loop L ts (Some (newPhrase L t)) phrases"
| "phrases_loop L (t # ts) (Some p) phrases =
     (if \<not> fst (tryAppend L p t)
      then phrases_loop L ts (Some (newPhrase L t)) (phrases @ [p])
      else phrases_loop L ts (Some (snd (tryAppend L p t))) phrases)"

text \<open>The loop that looks for the first page that is not null, from page \<open>i\<close> on.\<close>

function findFirstPage :: "Reader \<Rightarrow> int \<Rightarrow> panic + Page option" where
  "findFirstPage doc i =
     (case NumPage doc of
        Inl v \<Rightarrow> Inl v
      | Inr n \<Rightarrow>
          if i \<le> n then
            (case Page doc i of
               Inl v \<Rightarrow> Inl v
             | Inr p \<Rightarrow> if \<not> Page_IsNull p then Inr (Some p) else findFirstPage doc (i + 1))
          else Inr None)"
  by pat_completeness auto
termination
  by (relation "measure (\<lambda>(doc, i). case NumPage doc of Inl v \<Rightarrow> 0 | Inr n \<Rightarrow> nat (n + 1 - i))")
    auto

declare findFirstPage.simps [simp del]

text \<open>
  The body of \<open>phrasesOfDoc\<close>, without the deferred function: \<open>Inl v\<close> when a call into
  the reader panics with \<open>v\<close>, else the results \<open>(phrases, rerr)\<close>.
\<close>

definition phrasesOfDoc_body :: "lib \<Rightarrow> docgen \<Rightarrow> panic + (phrase list \<times> string option)" where
  "phrasesOfDoc_body L dg =
     (case dg of
        Inl v \<Rightarrow> Inl v
      | Inr (Inl err) \<Rightarrow> Inr ([], Some (''can't init reader: '' @ err))
      | Inr (Inr doc) \<Rightarrow>
          (case findFirstPage doc 1 of
             Inl v \<Rightarrow> Inl v
           | Inr None \<Rightarrow> Inr ([], None)
           | Inr (Some firstPage) \<Rightarrow>
               (case Page_Content firstPage of
                  Inl v \<Rightarrow> Inl v
                | Inr texts \<Rightarrow>
                    let phrases = phrases_loop L texts None [] in
                    if length phrases = 0 then Inr ([], None) else Inr (phrases, None))))"

text \<open>\<open>strings.Index\<close>: the index of the first instance of \<open>substr\<close> in \<open>s\<close>, or \<open>-1\<close>.\<close>

fun Index :: "string \<Rightarrow> string \<Rightarrow> int" where
  "Index [] substr = (if substr = [] then 0 else -1)"
| "Index (c # cs) substr =
     (if take (length substr) (c # cs) = substr then 0
      else let i = Index cs substr in if i < 0 then -1 else i + 1)"

text \<open>The deferred function: what \<open>rerr\<close> becomes when \<open>recover()\<close> returns \<open>val\<close>.\<close>

definition recovered :: "panic \<Rightarrow> string" where
  "recovered val =
     (let errStr = (case val of PanicError m \<Rightarrow> m | PanicValue m \<Rightarrow> m) in
      if Index errStr ''malformed hex string'' \<ge> 0
      then ''reader paniced: malformed hex string''
      else ''reader paniced: '' @ errStr)"

definition phrasesOfDoc :: "lib \<Rightarrow> docgen \<Rightarrow> phrase list \<times> string option" where
  "phrasesOfDoc L dg =
     (case phrasesOfDoc_body L dg of
        Inr res \<Rightarrow> res
      | Inl val \<Rightarrow> ([], Some (recovered val)))"

definition title :: "sortFunc \<Rightarrow> lib \<Rightarrow> docgen \<Rightarrow> string \<times> string option" where
  "title sortFunc L dg =
     (case phrasesOfDoc L dg of
        (phrases, None) \<Rightarrow> (fst (titleFromPhrases sortFunc L phrases), None)
      | (phrases, Some err) \<Rightarrow> ([], Some err))"

section \<open>The library's sort: \<open>slices.SortFunc\<close>\<close>

text \<open>
  \<open>slices.SortFunc\<close> of the Go library is a pattern-defeating quicksort
  (\<open>pdqsortCmpFunc\<close>). The slice is a list, an index is an \<open>int\<close> as in the library,
  and every function returns the slice it has changed. \<open>data[i], data[j] = data[j],
  data[i]\<close> is \<open>swap\<close>.
\<close>

definition get_at :: "'a list \<Rightarrow> int \<Rightarrow> 'a" where
  "get_at data i = data ! nat i"

definition swap :: "'a list \<Rightarrow> int \<Rightarrow> int \<Rightarrow> 'a list" where
  "swap data i j = data[nat i := get_at data j, nat j := get_at data i]"

text \<open>\<open>insertionSortCmpFunc\<close> sorts \<open>data[a:b]\<close>; \<open>insertion_inner\<close> is its inner loop.\<close>

function insertion_inner :: "('a \<Rightarrow> 'a \<Rightarrow> int) \<Rightarrow> 'a list \<Rightarrow> int \<Rightarrow> int \<Rightarrow> 'a list" where
  "insertion_inner cmp data a j =
     (if j > a \<and> cmp (get_at data j) (get_at data (j - 1)) < 0
      then insertion_inner cmp (swap data j (j - 1)) a (j - 1)
      else data)"
  by pat_completeness auto
termination
  by (relation "measure (\<lambda>(cmp, data, a, j). nat (j - a))") auto

declare insertion_inner.simps [simp del]

function insertion_outer :: "('a \<Rightarrow> 'a \<Rightarrow> int) \<Rightarrow> 'a list \<Rightarrow> int \<Rightarrow> int \<Rightarrow> int \<Rightarrow> 'a list" where
  "insertion_outer cmp data a b i =
     (if i < b then insertion_outer cmp (insertion_inner cmp data a i) a b (i + 1) else data)"
  by pat_completeness auto
termination
  by (relation "measure (\<lambda>(cmp, data, a, b, i). nat (b - i))") auto

declare insertion_outer.simps [simp del]

definition insertionSortCmpFunc :: "('a \<Rightarrow> 'a \<Rightarrow> int) \<Rightarrow> 'a list \<Rightarrow> int \<Rightarrow> int \<Rightarrow> 'a list" where
  "insertionSortCmpFunc cmp data a b = insertion_outer cmp data a b (a + 1)"

text \<open>\<open>siftDownCmpFunc\<close> and \<open>heapSortCmpFunc\<close>; \<open>rootIdx\<close> is the loop variable \<open>root\<close> of \<open>siftDown\<close>.\<close>

function siftDownCmpFunc ::
  "('a \<Rightarrow> 'a \<Rightarrow> int) \<Rightarrow> 'a list \<Rightarrow> int \<Rightarrow> int \<Rightarrow> int \<Rightarrow> 'a list" where
  "siftDownCmpFunc cmp data rootIdx hi firstIdx =
     (let child = 2 * rootIdx + 1 in
      if child \<ge> hi \<or> rootIdx < 0 then data
      else
        let child = (if child + 1 < hi \<and> cmp (get_at data (firstIdx + child)) (get_at data (firstIdx + child + 1)) < 0
                     then child + 1 else child)
        in
        if \<not> (cmp (get_at data (firstIdx + rootIdx)) (get_at data (firstIdx + child)) < 0) then data
        else siftDownCmpFunc cmp (swap data (firstIdx + rootIdx) (firstIdx + child)) child hi firstIdx)"
  by pat_completeness auto
termination
  by (relation "measure (\<lambda>(cmp, data, rootIdx, hi, firstIdx). nat (hi - rootIdx))") (auto simp: Let_def)

declare siftDownCmpFunc.simps [simp del]

function heapSort_build :: "('a \<Rightarrow> 'a \<Rightarrow> int) \<Rightarrow> 'a list \<Rightarrow> int \<Rightarrow> int \<Rightarrow> int \<Rightarrow> 'a list" where
  "heapSort_build cmp data firstIdx hi i =
     (if i \<ge> 0 then heapSort_build cmp (siftDownCmpFunc cmp data i hi firstIdx) firstIdx hi (i - 1)
      else data)"
  by pat_completeness auto
termination
  by (relation "measure (\<lambda>(cmp, data, firstIdx, hi, i). nat (i + 1))") auto

declare heapSort_build.simps [simp del]

function heapSort_pop :: "('a \<Rightarrow> 'a \<Rightarrow> int) \<Rightarrow> 'a list \<Rightarrow> int \<Rightarrow> int \<Rightarrow> 'a list" where
  "heapSort_pop cmp data firstIdx i =
     (if i \<ge> 0
      then heapSort_pop cmp (siftDownCmpFunc cmp (swap data firstIdx (firstIdx + i)) 0 i firstIdx) firstIdx (i - 1)
      else data)"
  by pat_completeness auto
termination
  by (relation "measure (\<lambda>(cmp, data, firstIdx, i). nat (i + 1))") auto

declare heapSort_pop.simps [simp del]

text \<open>Go's division of integers truncates towards zero.\<close>

definition quo :: "int \<Rightarrow> int \<Rightarrow> int" where
  "quo x y = (if x < 0 then - ((- x) div y) else x div y)"

definition heapSortCmpFunc :: "('a \<Rightarrow> 'a \<Rightarrow> int) \<Rightarrow> 'a list \<Rightarrow> int \<Rightarrow> int \<Rightarrow> 'a list" where
  "heapSortCmpFunc cmp data a b =
     (let firstIdx = a; hi = b - a;
          data = heapSort_build cmp data firstIdx hi (quo (hi - 1) 2)
      in heapSort_pop cmp data firstIdx (hi - 1))"

text \<open>\<open>partitionCmpFunc\<close> and \<open>partitionEqualCmpFunc\<close>, with their scanning loops.\<close>

function scan_up :: "('a \<Rightarrow> 'a \<Rightarrow> int) \<Rightarrow> 'a list \<Rightarrow> int \<Rightarrow> int \<Rightarrow> int \<Rightarrow> int" where
  "scan_up cmp data a i j =
     (if i \<le> j \<and> cmp (get_at data i) (get_at data a) < 0 then scan_up cmp data a (i + 1) j else i)"
  by pat_completeness auto
termination
  by (relation "measure (\<lambda>(cmp, data, a, i, j). nat (j + 1 - i))") auto

declare scan_up.simps [simp del]

function scan_down :: "('a \<Rightarrow> 'a \<Rightarrow> int) \<Rightarrow> 'a list \<Rightarrow> int \<Rightarrow> int \<Rightarrow> int \<Rightarrow> int" where
  "scan_down cmp data a i j =
     (if i \<le> j \<and> \<not> (cmp (get_at data j) (get_at data a) < 0) then scan_down cmp data a i (j - 1) else j)"
  by pat_completeness auto
termination
  by (relation "measure (\<lambda>(cmp, data, a, i, j). nat (j + 1 - i))") auto

declare scan_down.simps [simp del]

function partition_loop ::
  "('a \<Rightarrow> 'a \<Rightarrow> int) \<Rightarrow> 'a list \<Rightarrow> int \<Rightarrow> int \<Rightarrow> int \<Rightarrow> 'a list \<times> int" where
  "partition_loop cmp data a i j =
     (let i = scan_up cmp data a i j; j = scan_down cmp data a i j in
      if i > j then (data, j)
      else partition_loop cmp (swap data i j) a (i + 1) (j - 1))"
  by pat_completeness auto

lemma scan_up_ge: "i \<le> scan_up cmp data a i j"
proof (induction cmp data a i j rule: scan_up.induct)
  case (1 cmp data a i j)
  then show ?case by (subst scan_up.simps) auto
qed

lemma scan_down_le: "scan_down cmp data a i j \<le> j"
proof (induction cmp data a i j rule: scan_down.induct)
  case (1 cmp data a i j)
  then show ?case by (subst scan_down.simps) auto
qed

lemma scan_down_ge: "i \<le> j + 1 \<Longrightarrow> i \<le> scan_down cmp data a i j + 1"
proof (induction cmp data a i j rule: scan_down.induct)
  case (1 cmp data a i j)
  then show ?case by (subst scan_down.simps) auto
qed

termination partition_loop
proof (relation "measure (\<lambda>(cmp, data, a, i, j). nat (j + 1 - i))", goal_cases)
  case 1
  show ?case by simp
next
  case (2 cmp data a i j x xa)
  have "i \<le> x" using 2(1) scan_up_ge [of i cmp data a j] by simp
  moreover have "xa \<le> j" using 2(2) scan_down_le [of cmp data a x j] by simp
  ultimately show ?case using 2(3) by simp
qed

declare partition_loop.simps [simp del]

definition partitionCmpFunc ::
  "('a \<Rightarrow> 'a \<Rightarrow> int) \<Rightarrow> 'a list \<Rightarrow> int \<Rightarrow> int \<Rightarrow> int \<Rightarrow> 'a list \<times> int \<times> bool" where
  "partitionCmpFunc cmp data a b pivot =
     (let data = swap data a pivot;
          i = scan_up cmp data a (a + 1) (b - 1);
          j = scan_down cmp data a i (b - 1)
      in
      if i > j then (swap data j a, j, True)
      else
        let (data, j) = partition_loop cmp (swap data i j) a (i + 1) (j - 1)
        in (swap data j a, j, False))"

function scan_up_eq :: "('a \<Rightarrow> 'a \<Rightarrow> int) \<Rightarrow> 'a list \<Rightarrow> int \<Rightarrow> int \<Rightarrow> int \<Rightarrow> int" where
  "scan_up_eq cmp data a i j =
     (if i \<le> j \<and> \<not> (cmp (get_at data a) (get_at data i) < 0) then scan_up_eq cmp data a (i + 1) j else i)"
  by pat_completeness auto
termination
  by (relation "measure (\<lambda>(cmp, data, a, i, j). nat (j + 1 - i))") auto

declare scan_up_eq.simps [simp del]

function scan_down_eq :: "('a \<Rightarrow> 'a \<Rightarrow> int) \<Rightarrow> 'a list \<Rightarrow> int \<Rightarrow> int \<Rightarrow> int \<Rightarrow> int" where
  "scan_down_eq cmp data a i j =
     (if i \<le> j \<and> cmp (get_at data a) (get_at data j) < 0 then scan_down_eq cmp data a i (j - 1) else j)"
  by pat_completeness auto
termination
  by (relation "measure (\<lambda>(cmp, data, a, i, j). nat (j + 1 - i))") auto

declare scan_down_eq.simps [simp del]

function partitionEqual_loop ::
  "('a \<Rightarrow> 'a \<Rightarrow> int) \<Rightarrow> 'a list \<Rightarrow> int \<Rightarrow> int \<Rightarrow> int \<Rightarrow> 'a list \<times> int" where
  "partitionEqual_loop cmp data a i j =
     (let i = scan_up_eq cmp data a i j; j = scan_down_eq cmp data a i j in
      if i > j then (data, i)
      else partitionEqual_loop cmp (swap data i j) a (i + 1) (j - 1))"
  by pat_completeness auto

lemma scan_up_eq_ge: "i \<le> scan_up_eq cmp data a i j"
proof (induction cmp data a i j rule: scan_up_eq.induct)
  case (1 cmp data a i j)
  then show ?case by (subst scan_up_eq.simps) auto
qed

lemma scan_down_eq_le: "scan_down_eq cmp data a i j \<le> j"
proof (induction cmp data a i j rule: scan_down_eq.induct)
  case (1 cmp data a i j)
  then show ?case by (subst scan_down_eq.simps) auto
qed

termination partitionEqual_loop
proof (relation "measure (\<lambda>(cmp, data, a, i, j). nat (j + 1 - i))", goal_cases)
  case 1
  show ?case by simp
next
  case (2 cmp data a i j x xa)
  have "i \<le> x" using 2(1) scan_up_eq_ge [of i cmp data a j] by simp
  moreover have "xa \<le> j" using 2(2) scan_down_eq_le [of cmp data a x j] by simp
  ultimately show ?case using 2(3) by simp
qed

declare partitionEqual_loop.simps [simp del]

definition partitionEqualCmpFunc ::
  "('a \<Rightarrow> 'a \<Rightarrow> int) \<Rightarrow> 'a list \<Rightarrow> int \<Rightarrow> int \<Rightarrow> int \<Rightarrow> 'a list \<times> int" where
  "partitionEqualCmpFunc cmp data a b pivot =
     partitionEqual_loop cmp (swap data a pivot) a (a + 1) (b - 1)"

text \<open>
  \<open>partialInsertionSortCmpFunc\<close>: \<open>steps\<close> counts the iterations of its outer loop
  (\<open>maxSteps\<close> is 5, \<open>shortestShifting\<close> is 50). The two shifting loops start from index
  \<open>i - 1\<close> downwards and from \<open>i + 1\<close> upwards.
\<close>

function scan_sorted :: "('a \<Rightarrow> 'a \<Rightarrow> int) \<Rightarrow> 'a list \<Rightarrow> int \<Rightarrow> int \<Rightarrow> int" where
  "scan_sorted cmp data i b =
     (if i < b \<and> \<not> (cmp (get_at data i) (get_at data (i - 1)) < 0) then scan_sorted cmp data (i + 1) b
      else i)"
  by pat_completeness auto
termination
  by (relation "measure (\<lambda>(cmp, data, i, b). nat (b - i))") auto

declare scan_sorted.simps [simp del]

function shift_left :: "('a \<Rightarrow> 'a \<Rightarrow> int) \<Rightarrow> 'a list \<Rightarrow> int \<Rightarrow> 'a list" where
  "shift_left cmp data j =
     (if j \<ge> 1 then
        (if \<not> (cmp (get_at data j) (get_at data (j - 1)) < 0) then data
         else shift_left cmp (swap data j (j - 1)) (j - 1))
      else data)"
  by pat_completeness auto
termination
  by (relation "measure (\<lambda>(cmp, data, j). nat j)") auto

declare shift_left.simps [simp del]

function shift_right :: "('a \<Rightarrow> 'a \<Rightarrow> int) \<Rightarrow> 'a list \<Rightarrow> int \<Rightarrow> int \<Rightarrow> 'a list" where
  "shift_right cmp data j b =
     (if j < b then
        (if \<not> (cmp (get_at data j) (get_at data (j - 1)) < 0) then data
         else shift_right cmp (swap data j (j - 1)) (j + 1) b)
      else data)"
  by pat_completeness auto
termination
  by (relation "measure (\<lambda>(cmp, data, j, b). nat (b - j))") auto

declare shift_right.simps [simp del]

function partialInsertionSort_loop ::
  "('a \<Rightarrow> 'a \<Rightarrow> int) \<Rightarrow> 'a list \<Rightarrow> int \<Rightarrow> int \<Rightarrow> int \<Rightarrow> nat \<Rightarrow> 'a list \<times> bool" where
  "partialInsertionSort_loop cmp data a b i steps =
     (if steps < 5 then
        (let i = scan_sorted cmp data i b in
         if i = b then (data, True)
         else if b - a < 50 then (data, False)
         else
           let data = swap data i (i - 1);
               data = (if i - a \<ge> 2 then shift_left cmp data (i - 1) else data);
               data = (if b - i \<ge> 2 then shift_right cmp data (i + 1) b else data)
           in partialInsertionSort_loop cmp data a b i (steps + 1))
      else (data, False))"
  by pat_completeness auto
termination
  by (relation "measure (\<lambda>(cmp, data, a, b, i, steps). 5 - steps)") auto

declare partialInsertionSort_loop.simps [simp del]

definition partialInsertionSortCmpFunc ::
  "('a \<Rightarrow> 'a \<Rightarrow> int) \<Rightarrow> 'a list \<Rightarrow> int \<Rightarrow> int \<Rightarrow> 'a list \<times> bool" where
  "partialInsertionSortCmpFunc cmp data a b = partialInsertionSort_loop cmp data a b (a + 1) 0"

text \<open>
  \<open>breakPatternsCmpFunc\<close> swaps three elements with elements at pseudo-random
  places. The generator (\<open>xorshift.Next\<close>, on a state of 64 bits) is the parameter
  \<open>Next\<close>; \<open>bits.Len\<close> is the number of bits of a number.
\<close>

fun bits_Len :: "nat \<Rightarrow> nat" where
  "bits_Len n = (if n = 0 then 0 else Suc (bits_Len (n div 2)))"

declare bits_Len.simps [simp del]

definition nextPowerOfTwo :: "int \<Rightarrow> int" where
  "nextPowerOfTwo len = 2 ^ bits_Len (nat len)"

fun breakPatterns_loop ::
  "(int \<Rightarrow> int) \<Rightarrow> 'a list \<Rightarrow> int \<Rightarrow> int \<Rightarrow> int \<Rightarrow> int \<Rightarrow> int \<Rightarrow> nat \<Rightarrow> 'a list" where
  "breakPatterns_loop Next data a len modulus idx random 0 = data"
| "breakPatterns_loop Next data a len modulus idx random (Suc n) =
     (let i = 3 - int (Suc n);
          random = Next random;
          other = random AND (modulus - 1);
          other = (if other \<ge> len then other - len else other)
      in breakPatterns_loop Next (swap data (idx - 1 + i) (a + other)) a len modulus idx
           random n)"

definition breakPatternsCmpFunc :: "(int \<Rightarrow> int) \<Rightarrow> 'a list \<Rightarrow> int \<Rightarrow> int \<Rightarrow> 'a list" where
  "breakPatternsCmpFunc Next data a b =
     (let len = b - a in
      if len \<ge> 8 then
        breakPatterns_loop Next data a len (nextPowerOfTwo len)
          (a + (quo len 4) * 2 - 1) len 3
      else data)"

text \<open>\<open>choosePivotCmpFunc\<close>, with \<open>order2CmpFunc\<close>, \<open>medianCmpFunc\<close> and \<open>medianAdjacentCmpFunc\<close>.\<close>

datatype sortedHint = unknownHint | increasingHint | decreasingHint

definition order2CmpFunc ::
  "('a \<Rightarrow> 'a \<Rightarrow> int) \<Rightarrow> 'a list \<Rightarrow> int \<Rightarrow> int \<Rightarrow> nat \<Rightarrow> int \<times> int \<times> nat" where
  "order2CmpFunc cmp data a b swaps =
     (if cmp (get_at data b) (get_at data a) < 0 then (b, a, swaps + 1) else (a, b, swaps))"

definition medianCmpFunc ::
  "('a \<Rightarrow> 'a \<Rightarrow> int) \<Rightarrow> 'a list \<Rightarrow> int \<Rightarrow> int \<Rightarrow> int \<Rightarrow> nat \<Rightarrow> int \<times> nat" where
  "medianCmpFunc cmp data a b c swaps =
     (let (a, b, swaps) = order2CmpFunc cmp data a b swaps;
          (b, c, swaps) = order2CmpFunc cmp data b c swaps;
          (a, b, swaps) = order2CmpFunc cmp data a b swaps
      in (b, swaps))"

definition medianAdjacentCmpFunc ::
  "('a \<Rightarrow> 'a \<Rightarrow> int) \<Rightarrow> 'a list \<Rightarrow> int \<Rightarrow> nat \<Rightarrow> int \<times> nat" where
  "medianAdjacentCmpFunc cmp data a swaps = medianCmpFunc cmp data (a - 1) a (a + 1) swaps"

definition choosePivotCmpFunc ::
  "('a \<Rightarrow> 'a \<Rightarrow> int) \<Rightarrow> 'a list \<Rightarrow> int \<Rightarrow> int \<Rightarrow> int \<times> sortedHint" where
  "choosePivotCmpFunc cmp data a b =
     (let l = b - a;
          swaps = 0;
          i = a + quo l 4 * 1;
          j = a + quo l 4 * 2;
          k = a + quo l 4 * 3;
          (j, swaps) =
            (if l \<ge> 8 then
               (let (i, j, k, swaps) =
                  (if l \<ge> 50 then
                     (let (i, swaps) = medianAdjacentCmpFunc cmp data i swaps;
                          (j, swaps) = medianAdjacentCmpFunc cmp data j swaps;
                          (k, swaps) = medianAdjacentCmpFunc cmp data k swaps
                      in (i, j, k, swaps))
                   else (i, j, k, swaps))
                in medianCmpFunc cmp data i j k swaps)
             else (j, swaps))
      in
      if swaps = 0 then (j, increasingHint)
      else if swaps = 12 then (j, decreasingHint)
      else (j, unknownHint))"

function reverseRange_loop :: "'a list \<Rightarrow> int \<Rightarrow> int \<Rightarrow> 'a list" where
  "reverseRange_loop data i j =
     (if i < j then reverseRange_loop (swap data i j) (i + 1) (j - 1) else data)"
  by pat_completeness auto
termination
  by (relation "measure (\<lambda>(data, i, j). nat (j - i))") auto

declare reverseRange_loop.simps [simp del]

definition reverseRangeCmpFunc :: "'a list \<Rightarrow> int \<Rightarrow> int \<Rightarrow> 'a list" where
  "reverseRangeCmpFunc data a b = reverseRange_loop data a (b - 1)"

text \<open>
  One iteration of the loop of \<open>pdqsortCmpFunc\<close> on \<open>data[a:b]\<close>, up to the point where it
  returns (\<open>Done\<close>), goes on with \<open>a = mid\<close> after \<open>partitionEqualCmpFunc\<close>
  (\<open>ContinueEqual\<close>), or has partitioned the slice around \<open>mid\<close> (\<open>Split\<close>). Each result
  carries the slice and the value of \<open>limit\<close>; \<open>Split\<close> carries \<open>alreadyPartitioned\<close>.
  \<open>maxInsertion\<close> is 12.
\<close>

datatype 'a pdqStep = Done "'a list" | ContinueEqual "'a list" int nat | Split "'a list" int nat bool

definition pdqsort_step ::
  "(int \<Rightarrow> int) \<Rightarrow> ('a \<Rightarrow> 'a \<Rightarrow> int) \<Rightarrow> 'a list \<Rightarrow> int \<Rightarrow> int \<Rightarrow> nat \<Rightarrow> bool \<Rightarrow> bool \<Rightarrow> 'a pdqStep" where
  "pdqsort_step Next cmp data a b limit wasBalanced wasPartitioned =
     (let len = b - a in
      if len \<le> 12 then Done (insertionSortCmpFunc cmp data a b)
      else if limit = 0 then Done (heapSortCmpFunc cmp data a b)
      else
        let (data, limit) =
              (if \<not> wasBalanced then (breakPatternsCmpFunc Next data a b, limit - 1)
               else (data, limit));
            (pivot, hint) = choosePivotCmpFunc cmp data a b;
            (data, pivot, hint) =
              (if hint = decreasingHint
               then (reverseRangeCmpFunc data a b, (b - 1) - (pivot - a), increasingHint)
               else (data, pivot, hint));
            (data, isSorted) =
              (if wasBalanced \<and> wasPartitioned \<and> hint = increasingHint
               then partialInsertionSortCmpFunc cmp data a b
               else (data, False))
        in
        if isSorted then Done data
        else if a > 0 \<and> \<not> (cmp (get_at data (a - 1)) (get_at data pivot) < 0) then
          (let (data, mid) = partitionEqualCmpFunc cmp data a b pivot
           in ContinueEqual data mid limit)
        else
          (let (data, mid, alreadyPartitioned) = partitionCmpFunc cmp data a b pivot
           in Split data mid limit alreadyPartitioned))"

lemma scan_up_le: "i \<le> j + 1 \<Longrightarrow> scan_up cmp data a i j \<le> j + 1"
proof (induction cmp data a i j rule: scan_up.induct)
  case (1 cmp data a i j)
  then show ?case by (subst scan_up.simps) auto
qed

lemma scan_down_lower: "min (i - 1) j \<le> scan_down cmp data a i j"
proof (induction cmp data a i j rule: scan_down.induct)
  case (1 cmp data a i j)
  then show ?case by (subst scan_down.simps) auto
qed

lemma partition_loop_bounds:
  "snd (partition_loop cmp data a i j) \<le> j \<and> min (i - 1) j \<le> snd (partition_loop cmp data a i j)"
proof (induction cmp data a i j rule: partition_loop.induct)
  case (1 cmp data a i j)
  let ?i = "scan_up cmp data a i j"
  let ?j = "scan_down cmp data a ?i j"
  have i: "i \<le> ?i" by (rule scan_up_ge)
  have j: "?j \<le> j" by (rule scan_down_le)
  have l: "min (?i - 1) j \<le> ?j" by (rule scan_down_lower)
  show ?case
  proof (cases "?i > ?j")
    case True
    then have "partition_loop cmp data a i j = (data, ?j)"
      by (subst partition_loop.simps) (simp add: Let_def)
    then show ?thesis using i j l by auto
  next
    case False
    then have e: "partition_loop cmp data a i j = partition_loop cmp (swap data ?i ?j) a (?i + 1) (?j - 1)"
      by (subst partition_loop.simps) (simp add: Let_def)
    have "snd (partition_loop cmp (swap data ?i ?j) a (?i + 1) (?j - 1)) \<le> ?j - 1
        \<and> min (?i + 1 - 1) (?j - 1) \<le> snd (partition_loop cmp (swap data ?i ?j) a (?i + 1) (?j - 1))"
      using 1 [OF refl refl] False by simp
    then show ?thesis using e i j False by auto
  qed
qed

lemma partitionCmpFunc_bounds:
  assumes "a < b"
  shows "a \<le> fst (snd (partitionCmpFunc cmp data a b pivot))
       \<and> fst (snd (partitionCmpFunc cmp data a b pivot)) < b"
proof -
  let ?d = "swap data a pivot"
  let ?i = "scan_up cmp ?d a (a + 1) (b - 1)"
  let ?j = "scan_down cmp ?d a ?i (b - 1)"
  have i: "a + 1 \<le> ?i" by (rule scan_up_ge)
  have j: "?j \<le> b - 1" by (rule scan_down_le)
  have l: "min (?i - 1) (b - 1) \<le> ?j" by (rule scan_down_lower)
  show ?thesis
  proof (cases "?i > ?j")
    case True
    then have "fst (snd (partitionCmpFunc cmp data a b pivot)) = ?j"
      by (simp add: partitionCmpFunc_def Let_def)
    then show ?thesis using i j l assms by auto
  next
    case False
    let ?r = "partition_loop cmp (swap ?d ?i ?j) a (?i + 1) (?j - 1)"
    have "fst (snd (partitionCmpFunc cmp data a b pivot)) = snd ?r"
      using False by (simp add: partitionCmpFunc_def Let_def split: prod.splits)
    moreover have "snd ?r \<le> ?j - 1 \<and> min (?i + 1 - 1) (?j - 1) \<le> snd ?r"
      by (rule partition_loop_bounds)
    ultimately show ?thesis using i j False by auto
  qed
qed

lemma partitionEqual_loop_lower: "i \<le> snd (partitionEqual_loop cmp data a i j)"
proof (induction cmp data a i j rule: partitionEqual_loop.induct)
  case (1 cmp data a i j)
  let ?i = "scan_up_eq cmp data a i j"
  let ?j = "scan_down_eq cmp data a ?i j"
  have i: "i \<le> ?i" by (rule scan_up_eq_ge)
  show ?case
  proof (cases "?i > ?j")
    case True
    then have "partitionEqual_loop cmp data a i j = (data, ?i)"
      by (subst partitionEqual_loop.simps) (simp add: Let_def)
    then show ?thesis using i by simp
  next
    case False
    then have e: "partitionEqual_loop cmp data a i j =
        partitionEqual_loop cmp (swap data ?i ?j) a (?i + 1) (?j - 1)"
      by (subst partitionEqual_loop.simps) (simp add: Let_def)
    have "?i + 1 \<le> snd (partitionEqual_loop cmp (swap data ?i ?j) a (?i + 1) (?j - 1))"
      using 1 [OF refl refl] False by simp
    then show ?thesis using e i by simp
  qed
qed

lemma pdqsort_step_ContinueEqual:
  "pdqsort_step Next cmp data a b limit wb wp = ContinueEqual d mid lm \<Longrightarrow> a < mid \<and> a < b"
proof -
  assume s: "pdqsort_step Next cmp data a b limit wb wp = ContinueEqual d mid lm"
  then have ab: "a < b"
    by (auto simp: pdqsort_step_def Let_def split: if_splits prod.splits)
  from s obtain data' pivot where "partitionEqualCmpFunc cmp data' a b pivot = (d, mid)"
    by (auto simp: pdqsort_step_def Let_def split: if_splits prod.splits)
  then have "a + 1 \<le> mid"
    using partitionEqual_loop_lower [of "a + 1" cmp "swap data' a pivot" a "b - 1"]
    by (simp add: partitionEqualCmpFunc_def)
  then show ?thesis using ab by simp
qed

lemma pdqsort_step_Split:
  "pdqsort_step Next cmp data a b limit wb wp = Split d mid lm ap \<Longrightarrow> a \<le> mid \<and> mid < b"
proof -
  assume s: "pdqsort_step Next cmp data a b limit wb wp = Split d mid lm ap"
  then have ab: "a < b"
    by (auto simp: pdqsort_step_def Let_def split: if_splits prod.splits)
  from s obtain data' pivot where "partitionCmpFunc cmp data' a b pivot = (d, mid, ap)"
    by (auto simp: pdqsort_step_def Let_def split: if_splits prod.splits)
  then show ?thesis
    using partitionCmpFunc_bounds [OF ab, of cmp data' pivot] by simp
qed

text \<open>
  \<open>pdqsortCmpFunc\<close> sorts \<open>data[a:b]\<close>. The variables \<open>wasBalanced\<close> and \<open>wasPartitioned\<close> of
  its loop are arguments here; a call from outside starts with both true.
\<close>

function pdqsortCmpFunc ::
  "(int \<Rightarrow> int) \<Rightarrow> ('a \<Rightarrow> 'a \<Rightarrow> int) \<Rightarrow> 'a list \<Rightarrow> int \<Rightarrow> int \<Rightarrow> nat \<Rightarrow> bool \<Rightarrow> bool \<Rightarrow> 'a list" where
  "pdqsortCmpFunc Next cmp data a b limit wasBalanced wasPartitioned =
     (case pdqsort_step Next cmp data a b limit wasBalanced wasPartitioned of
        Done data \<Rightarrow> data
      | ContinueEqual data mid limit \<Rightarrow>
          pdqsortCmpFunc Next cmp data mid b limit wasBalanced wasPartitioned
      | Split data mid limit wasPartitioned \<Rightarrow>
          let leftLen = mid - a; rightLen = b - mid; balanceThreshold = quo (b - a) 8 in
          if leftLen < rightLen then
            pdqsortCmpFunc Next cmp (pdqsortCmpFunc Next cmp data a mid limit True True)
              (mid + 1) b limit (leftLen \<ge> balanceThreshold) wasPartitioned
          else
            pdqsortCmpFunc Next cmp (pdqsortCmpFunc Next cmp data (mid + 1) b limit True True)
              a mid limit (rightLen \<ge> balanceThreshold) wasPartitioned)"
  by pat_completeness auto
termination
proof (relation "measure (\<lambda>(Next, cmp, data, a, b, limit, wb, wp). nat (b - a))", goal_cases)
  case 1
  show ?case by simp
next
  case (2 Next cmp data a b limit wb wp d mid lm)
  then show ?case using pdqsort_step_ContinueEqual [OF 2(1)] by simp
next
  case (3 Next cmp data a b limit wb wp d mid lm ap)
  then show ?case using pdqsort_step_Split [OF 3(1)] by simp
next
  case (4 Next cmp data a b limit wb wp d mid lm ap)
  then show ?case using pdqsort_step_Split [OF 4(1)] by simp
next
  case (5 Next cmp data a b limit wb wp d mid lm ap)
  then show ?case using pdqsort_step_Split [OF 5(1)] by simp
next
  case (6 Next cmp data a b limit wb wp d mid lm ap)
  then show ?case using pdqsort_step_Split [OF 6(1)] by simp
qed

declare pdqsortCmpFunc.simps [simp del]

definition SortFunc :: "(int \<Rightarrow> int) \<Rightarrow> ('a \<Rightarrow> 'a \<Rightarrow> int) \<Rightarrow> 'a list \<Rightarrow> 'a list" where
  "SortFunc Next cmp x =
     (let n = int (length x) in pdqsortCmpFunc Next cmp x 0 n (bits_Len (nat n)) True True)"

section \<open>Auxiliary notions for the statements\<close>

text \<open>
  \<open>built L p rs\<close>: the phrase \<open>p\<close> was opened by \<open>newPhrase\<close> on the first run of \<open>rs\<close> and
  has absorbed the other runs of \<open>rs\<close>, in this order, by calls of \<open>tryAppend\<close> that
  returned true.
\<close>

inductive built :: "lib \<Rightarrow> phrase \<Rightarrow> Text list \<Rightarrow> bool" for L where
  seed: "built L (newPhrase L t) [t]"
| absorb: "built L p rs \<Longrightarrow> fst (tryAppend L p t) \<Longrightarrow> built L (snd (tryAppend L p t)) (rs @ [t])"

text \<open>
  The loop of \<open>phrasesOfDoc\<close> once more, recording with each phrase the runs that it
  absorbed. Lemma \<open>absorbed_loop_phrases\<close> shows that the phrases are those of
  \<open>phrases_loop\<close>.
\<close>

fun absorbed_loop ::
  "lib \<Rightarrow> Text list \<Rightarrow> (phrase \<times> Text list) option \<Rightarrow> (phrase \<times> Text list) list
     \<Rightarrow> (phrase \<times> Text list) list" where
  "absorbed_loop L [] cur groups =
     (case cur of Some g \<Rightarrow> groups @ [g] | None \<Rightarrow> groups)"
| "absorbed_loop L (t # ts) None groups = absorbed_loop L ts (Some (newPhrase L t, [t])) groups"
| "absorbed_loop L (t # ts) (Some (p, rs)) groups =
     (if \<not> fst (tryAppend L p t)
      then absorbed_loop L ts (Some (newPhrase L t, [t])) (groups @ [(p, rs)])
      else absorbed_loop L ts (Some (snd (tryAppend L p t), rs @ [t])) groups)"

definition absorbed :: "lib \<Rightarrow> Text list \<Rightarrow> (phrase \<times> Text list) list" where
  "absorbed L runs = absorbed_loop L runs None []"

text \<open>
  Insertion from the right end into a list that is held reversed: what one pass of
  the inner loop of \<open>insertionSortCmpFunc\<close> does to the part of the slice before the
  element it moves (lemma \<open>insertion_inner_eq\<close>).
\<close>

fun insert_back :: "('a \<Rightarrow> 'a \<Rightarrow> int) \<Rightarrow> 'a \<Rightarrow> 'a list \<Rightarrow> 'a list" where
  "insert_back cmp x [] = [x]"
| "insert_back cmp x (y # ys) = (if cmp x y < 0 then y # insert_back cmp x ys else x # y # ys)"

text \<open>
  What the library promises of \<open>slices.SortFunc\<close> with the comparison of
  \<open>titleFromPhrases\<close>: the result is in descending order of font size and has the same
  elements.
\<close>

definition sortContract :: "sortFunc \<Rightarrow> bool" where
  "sortContract sortFunc =
     (\<forall>ps. sorted_wrt (\<lambda>a b. fontSize a \<ge> fontSize b) (sortFunc byFontSize ps)
           \<and> mset (sortFunc byFontSize ps) = mset ps)"

text \<open>\<open>insertionSortCmpFunc\<close> on a whole slice, as a sort function.\<close>

definition insertionSort :: "('a \<Rightarrow> 'a \<Rightarrow> int) \<Rightarrow> 'a list \<Rightarrow> 'a list" where
  "insertionSort cmp x = insertionSortCmpFunc cmp x 0 (int (length x))"

text \<open>The text of a panic value, as the deferred function of \<open>phrasesOfDoc\<close> reads it.\<close>

definition panicMessage :: "panic \<Rightarrow> string" where
  "panicMessage val = (case val of PanicError m \<Rightarrow> m | PanicValue m \<Rightarrow> m)"

text \<open>
  \<open>panicsWith dg v\<close>: a call into the reader made by \<open>phrasesOfDoc\<close> panics with the
  value \<open>v\<close>: the construction of the reader, \<open>NumPage\<close> or \<open>Page\<close> in the search for the
  first page, or \<open>Content\<close> on that page.
\<close>

definition panicsWith :: "docgen \<Rightarrow> panic \<Rightarrow> bool" where
  "panicsWith dg v =
     (case dg of
        Inl v' \<Rightarrow> v' = v
      | Inr (Inl err) \<Rightarrow> False
      | Inr (Inr doc) \<Rightarrow>
          (case findFirstPage doc 1 of
             Inl v' \<Rightarrow> v' = v
           | Inr None \<Rightarrow> False
           | Inr (Some pg) \<Rightarrow> Page_Content pg = Inl v))"

section \<open>Example data\<close>

text \<open>
  A small instance of the libraries: the graphic characters are those of ASCII, the
  stemmer returns its argument, the word list has three words.
\<close>

definition testLib :: lib where
  "testLib =
     \<lparr>IsGraphic = (\<lambda>r. 0x20 \<le> r \<and> r \<le> 0x7E),
      ToLowerRune = (\<lambda>r. r),
      Stem = (\<lambda>w. w),
      words = (\<lambda>w. w \<in> set [''design'', ''systems'', ''the''])\<rparr>"

definition run :: "string \<Rightarrow> real \<Rightarrow> real \<Rightarrow> real \<Rightarrow> real \<Rightarrow> Text" where
  "run s fs x y w =
     \<lparr>Text_Font = ''Times'', Text_FontSize = fs, Text_X = x, Text_Y = y, Text_W = w, Text_S = s\<rparr>"

definition exampleRuns :: "Text list" where
  "exampleRuns =
     [run ''Design'' 24 0 100 40, run ''of'' 24 45 100 15, run ''Systems'' 24 65 100 45,
      run ''Lorem ipsum dolor sit amet consectetur'' 10 0 80 200]"

text \<open>Phrases for the ranker: a phrase with the text \<open>s\<close> and the font size \<open>fs\<close>.\<close>

definition ph :: "string \<Rightarrow> real \<Rightarrow> phrase" where
  "ph s fs =
     \<lparr>font = ''Times'', fontSize = fs, spacing = spacingCoefficient * fs, prevx = 0, prevy = 0,
      p_length = length s, p_b = s\<rparr>"

text \<open>Thirteen phrases, twelve of font size 10 and then one of font size 20.\<close>

definition thirteen :: "phrase list" where
  "thirteen =
     [ph ''a'' 10, ph ''b'' 10, ph ''c'' 10, ph ''d'' 10, ph ''e'' 10, ph ''f'' 10, ph ''g'' 10,
      ph ''h'' 10, ph ''i'' 10, ph ''j'' 10, ph ''k'' 10, ph ''l'' 10, ph ''m'' 20]"

definition three :: "phrase list" where
  "three = [ph ''a'' 10, ph ''b'' 24, ph ''c'' 10]"

text \<open>
  A text that ends in the middle of an encoding: \<open>a\<close>, a tabulator, the two bytes of
  \<open>U+00E9\<close> and the first byte of an encoding of two bytes.
\<close>

definition truncatedText :: string where
  "truncatedText = [CHR ''a'', CHR 0x09, CHR 0xC3, CHR 0xA9, CHR 0xC3]"

text \<open>A reader whose first page is null and whose second page has no text.\<close>

definition emptyPageDoc :: Reader where
  "emptyPageDoc =
     \<lparr>NumPage = Inr 2,
      Page = (\<lambda>i. if i = 1 then Inr \<lparr>Page_IsNull = True, Page_Content = Inr []\<rparr>
                   else Inr \<lparr>Page_IsNull = False, Page_Content = Inr []\<rparr>)\<rparr>"

text \<open>A reader that panics when the content of its page is read.\<close>

definition brokenDoc :: Reader where
  "brokenDoc =
     \<lparr>NumPage = Inr 1,
      Page = (\<lambda>i. Inr \<lparr>Page_IsNull = False,
                      Page_Content = Inl (PanicError ''malformed hex string: 6z'')\<rparr>)\<rparr>"

section \<open>Properties of the phrase builder\<close>

lemma tryAppend_accepts: "fst (tryAppend L p t) \<longleftrightarrow> \<bar>Text_FontSize t - fontSize p\<bar> < 4"
  by (simp add: tryAppend_def Let_def)

lemma tryAppend_fontSize: "fontSize (snd (tryAppend L p t)) = fontSize p"
  by (simp add: tryAppend_def Let_def)

lemma tryAppend_spacing: "spacing (snd (tryAppend L p t)) = spacing p"
  by (simp add: tryAppend_def Let_def)

lemma built_nonempty: "built L p rs \<Longrightarrow> rs \<noteq> []"
  by (induction rule: built.induct) auto

lemma built_seed:
  "built L p rs \<Longrightarrow> fontSize p = Text_FontSize (hd rs) \<and> spacing p = 0.16 * Text_FontSize (hd rs)"
proof (induction rule: built.induct)
  case (seed t)
  show ?case by (simp add: newPhrase_def spacingCoefficient_def)
next
  case (absorb p rs t)
  then show ?case
    using built_nonempty [OF absorb.hyps(1)]
    by (simp add: tryAppend_fontSize tryAppend_spacing)
qed

lemma built_within:
  "built L p rs \<Longrightarrow> \<forall>t \<in> set rs. \<bar>Text_FontSize t - fontSize p\<bar> < 4"
proof (induction rule: built.induct)
  case (seed t)
  show ?case by (simp add: newPhrase_def)
next
  case (absorb p rs t)
  then show ?case
    by (auto simp: tryAppend_fontSize tryAppend_accepts)
qed

lemma absorbed_loop_phrases:
  "map fst (absorbed_loop L ts cur groups) =
     phrases_loop L ts (map_option fst cur) (map fst groups)"
proof (induction L ts cur groups rule: absorbed_loop.induct)
  case (1 L cur groups)
  show ?case by (cases cur) auto
next
  case (2 L t ts groups)
  then show ?case by simp
next
  case (3 L t ts p rs groups)
  then show ?case by simp
qed

lemma absorbed_loop_concat:
  "concat (map snd (absorbed_loop L ts cur groups)) =
     concat (map snd groups) @ (case cur of Some g \<Rightarrow> snd g | None \<Rightarrow> []) @ ts"
proof (induction L ts cur groups rule: absorbed_loop.induct)
  case (1 L cur groups)
  show ?case by (cases cur) auto
next
  case (2 L t ts groups)
  then show ?case by simp
next
  case (3 L t ts p rs groups)
  then show ?case by simp
qed

lemma absorbed_loop_built:
  assumes "\<forall>g \<in> set groups. built L (fst g) (snd g)"
    and "\<forall>g. cur = Some g \<longrightarrow> built L (fst g) (snd g)"
  shows "\<forall>g \<in> set (absorbed_loop L ts cur groups). built L (fst g) (snd g)"
  using assms
proof (induction L ts cur groups rule: absorbed_loop.induct)
  case (1 L cur groups)
  then show ?case by (cases cur) auto
next
  case (2 L t ts groups)
  have "\<forall>g. Some (newPhrase L t, [t]) = Some g \<longrightarrow> built L (fst g) (snd g)"
    by (simp add: built.seed)
  from 2(1) [OF 2(2) this] show ?case by simp
next
  case (3 L t ts p rs groups)
  have bp: "built L p rs" using 3(4) by simp
  show ?case
  proof (cases "fst (tryAppend L p t)")
    case True
    have "built L (snd (tryAppend L p t)) (rs @ [t])"
      using bp True by (rule built.absorb)
    then have "\<forall>g. Some (snd (tryAppend L p t), rs @ [t]) = Some g \<longrightarrow> built L (fst g) (snd g)"
      by simp
    from 3(2) [OF _ 3(3) this] True show ?thesis by simp
  next
    case False
    have g: "\<forall>g \<in> set (groups @ [(p, rs)]). built L (fst g) (snd g)"
      using 3(3) bp by simp
    have "\<forall>g. Some (newPhrase L t, [t]) = Some g \<longrightarrow> built L (fst g) (snd g)"
      by (simp add: built.seed)
    from 3(1) [OF False g this] False show ?thesis by simp
  qed
qed

lemma absorbed_built: "g \<in> set (absorbed L runs) \<Longrightarrow> built L (fst g) (snd g)"
  using absorbed_loop_built [of "[]" L None runs] by (simp add: absorbed_def)

lemma exampleRuns_absorbed:
  "map snd (absorbed testLib exampleRuns) =
     [[run ''Design'' 24 0 100 40, run ''of'' 24 45 100 15, run ''Systems'' 24 65 100 45],
      [run ''Lorem ipsum dolor sit amet consectetur'' 10 0 80 200]]"
  by (simp add: absorbed_def exampleRuns_def run_def tryAppend_accepts newPhrase_def
      tryAppend_fontSize)

text \<open>
  Claim C5. Every phrase that the loop of \<open>phrasesOfDoc\<close> produces has absorbed runs
  whose font sizes all differ from the font size of the phrase, which is that of its
  first run, by less than 4.0; the absorbed runs of the phrases, one after the
  other, are the runs of the page. \<open>tryAppend\<close> accepts a run exactly when the font
  sizes differ by less than 4.0, whatever the font names of the phrase and the run.
\<close>

theorem C5_absorbed_runs_within_tolerance:
  "map fst (absorbed L runs) = phrases_loop L runs None []
   \<and> concat (map snd (absorbed L runs)) = runs
   \<and> (\<forall>g \<in> set (absorbed L runs).
         built L (fst g) (snd g) \<and> snd g \<noteq> []
         \<and> fontSize (fst g) = Text_FontSize (hd (snd g))
         \<and> (\<forall>t \<in> set (snd g). \<bar>Text_FontSize t - fontSize (fst g)\<bar> < 4))
   \<and> fst (tryAppend L p t) = (\<bar>Text_FontSize t - fontSize p\<bar> < 4)
   \<and> fst (tryAppend L (p\<lparr>font := f\<rparr>) (t\<lparr>Text_Font := f'\<rparr>)) = fst (tryAppend L p t)"
proof -
  have a: "\<forall>g \<in> set (absorbed L runs).
         built L (fst g) (snd g) \<and> snd g \<noteq> []
         \<and> fontSize (fst g) = Text_FontSize (hd (snd g))
         \<and> (\<forall>t \<in> set (snd g). \<bar>Text_FontSize t - fontSize (fst g)\<bar> < 4)"
  proof
    fix g assume "g \<in> set (absorbed L runs)"
    then have b: "built L (fst g) (snd g)" by (rule absorbed_built)
    show "built L (fst g) (snd g) \<and> snd g \<noteq> []
         \<and> fontSize (fst g) = Text_FontSize (hd (snd g))
         \<and> (\<forall>t \<in> set (snd g). \<bar>Text_FontSize t - fontSize (fst g)\<bar> < 4)"
      using b built_nonempty [OF b] built_seed [OF b] built_within [OF b] by blast
  qed
  have b: "map fst (absorbed L runs) = phrases_loop L runs None []"
    by (simp add: absorbed_def absorbed_loop_phrases)
  have c: "concat (map snd (absorbed L runs)) = runs"
    by (simp add: absorbed_def absorbed_loop_concat)
  have d: "fst (tryAppend L p t) = (\<bar>Text_FontSize t - fontSize p\<bar> < 4)"
    by (simp add: tryAppend_accepts)
  have e: "fst (tryAppend L (p\<lparr>font := f\<rparr>) (t\<lparr>Text_Font := f'\<rparr>)) = fst (tryAppend L p t)"
    by (simp add: tryAppend_accepts)
  show ?thesis
    by (intro conjI a b c d e)
qed

theorem C5_witness:
  "map snd (absorbed testLib exampleRuns) =
     [[run ''Design'' 24 0 100 40, run ''of'' 24 45 100 15, run ''Systems'' 24 65 100 45],
      [run ''Lorem ipsum dolor sit amet consectetur'' 10 0 80 200]]
   \<and> fontSize (fst (hd (absorbed testLib exampleRuns))) = 24
   \<and> \<bar>Text_FontSize (run ''Systems'' 24 65 100 45)
        - fontSize (fst (hd (absorbed testLib exampleRuns)))\<bar> < 4"
proof -
  let ?gs = "absorbed testLib exampleRuns"
  have ne: "?gs \<noteq> []"
    using exampleRuns_absorbed by auto
  then have m: "hd ?gs \<in> set ?gs" by simp
  have s: "snd (hd ?gs) =
      [run ''Design'' 24 0 100 40, run ''of'' 24 45 100 15, run ''Systems'' 24 65 100 45]"
    using exampleRuns_absorbed ne by (simp add: hd_map [symmetric])
  have all: "\<forall>g \<in> set ?gs. fontSize (fst g) = Text_FontSize (hd (snd g))
         \<and> (\<forall>t \<in> set (snd g). \<bar>Text_FontSize t - fontSize (fst g)\<bar> < 4)"
    using C5_absorbed_runs_within_tolerance [of testLib exampleRuns] by blast
  have f: "fontSize (fst (hd ?gs)) = 24"
    using all m s by (simp add: run_def)
  have "run ''Systems'' 24 65 100 45 \<in> set (snd (hd ?gs))"
    using s by simp
  then have "\<bar>Text_FontSize (run ''Systems'' 24 65 100 45) - fontSize (fst (hd ?gs))\<bar> < 4"
    using all m by blast
  then show ?thesis
    using exampleRuns_absorbed f by blast
qed



section \<open>Properties of \<open>phrasesOfDoc\<close> and \<open>title\<close>\<close>

lemma Index_nonneg_iff: "Index s sub \<ge> 0 \<longleftrightarrow> (\<exists>xs ys. s = xs @ sub @ ys)"
proof (induction s)
  case Nil
  then show ?case by auto
next
  case (Cons c cs)
  show ?case
  proof (cases "take (length sub) (c # cs) = sub")
    case True
    then have "c # cs = [] @ sub @ drop (length sub) (c # cs)"
      by (metis append_Nil append_take_drop_id)
    then show ?thesis using True by (metis Index.simps(2) order_refl)
  next
    case False
    have "(\<exists>xs ys. c # cs = xs @ sub @ ys) \<longleftrightarrow> (\<exists>xs ys. cs = xs @ sub @ ys)"
    proof
      assume "\<exists>xs ys. c # cs = xs @ sub @ ys"
      then obtain xs ys where e: "c # cs = xs @ sub @ ys" by blast
      show "\<exists>xs ys. cs = xs @ sub @ ys"
      proof (cases xs)
        case Nil
        then have "take (length sub) (c # cs) = sub" using e by simp
        then show ?thesis using False by simp
      next
        case (Cons x xs')
        then show ?thesis using e by auto
      qed
    next
      assume "\<exists>xs ys. cs = xs @ sub @ ys"
      then obtain xs ys where "cs = xs @ sub @ ys" by blast
      then have "c # cs = (c # xs) @ sub @ ys" by simp
      then show "\<exists>xs ys. c # cs = xs @ sub @ ys" by blast
    qed
    then show ?thesis using False Cons by (auto simp: Let_def)
  qed
qed

lemma body_panics: "phrasesOfDoc_body L dg = Inl v \<longleftrightarrow> panicsWith dg v"
  by (auto simp: phrasesOfDoc_body_def panicsWith_def Let_def split: sum.splits option.splits)

lemma emptyPageDoc_first:
  "findFirstPage emptyPageDoc 1 = Inr (Some \<lparr>Page_IsNull = False, Page_Content = Inr []\<rparr>)"
  by (simp add: findFirstPage.simps [of _ 1] findFirstPage.simps [of _ 2] emptyPageDoc_def)

text \<open>
  Claim C8. No runs give no phrases, and \<open>titleFromPhrases\<close> returns the empty string
  for no phrases. Hence for a document whose first page that is not null has no
  text run, \<open>phrasesOfDoc\<close> returns no phrase and no error, and \<open>title\<close> returns the empty
  string and no error.
\<close>

theorem C8_no_runs_empty_title:
  "phrases_loop L [] None [] = []
   \<and> fst (titleFromPhrases S L []) = []
   \<and> (findFirstPage doc 1 = Inr (Some pg) \<and> Page_Content pg = Inr []
        \<longrightarrow> phrasesOfDoc L (Inr (Inr doc)) = ([], None)
            \<and> title S L (Inr (Inr doc)) = ([], None))"
  by (simp add: titleFromPhrases_def phrasesOfDoc_def phrasesOfDoc_body_def title_def)

theorem C8_witness:
  "findFirstPage emptyPageDoc 1 = Inr (Some \<lparr>Page_IsNull = False, Page_Content = Inr []\<rparr>)
   \<and> title (\<lambda>c xs. xs) testLib (Inr (Inr emptyPageDoc)) = ([], None)"
  using C8_no_runs_empty_title
          [of testLib "\<lambda>c xs. xs" emptyPageDoc "\<lparr>Page_IsNull = False, Page_Content = Inr []\<rparr>"]
    emptyPageDoc_first
  by simp

text \<open>
  Claim C9. When a call into the reader panics with the value \<open>v\<close>, \<open>phrasesOfDoc\<close>
  returns no phrase and an error, and \<open>title\<close> returns that error. The error is
  \<open>reader paniced: malformed hex string\<close> when the text of \<open>v\<close> contains
  \<open>malformed hex string\<close>; otherwise it is \<open>reader paniced: \<close> followed by the text of
  \<open>v\<close>, which is a different error.
\<close>

theorem C9_panic_becomes_error:
  assumes "panicsWith dg v"
  shows "phrasesOfDoc L dg =
           ([], Some (if (\<exists>xs ys. panicMessage v = xs @ ''malformed hex string'' @ ys)
                      then ''reader paniced: malformed hex string''
                      else ''reader paniced: '' @ panicMessage v))
         \<and> title S L dg = ([], snd (phrasesOfDoc L dg))
         \<and> ((\<nexists>xs ys. panicMessage v = xs @ ''malformed hex string'' @ ys)
              \<longrightarrow> snd (phrasesOfDoc L dg) \<noteq> Some ''reader paniced: malformed hex string'')"
proof -
  have b: "phrasesOfDoc_body L dg = Inl v"
    using assms by (simp add: body_panics)
  have r: "recovered v = (if (\<exists>xs ys. panicMessage v = xs @ ''malformed hex string'' @ ys)
                      then ''reader paniced: malformed hex string''
                      else ''reader paniced: '' @ panicMessage v)"
    using Index_nonneg_iff [of "panicMessage v" "''malformed hex string''"]
    by (cases v) (auto simp: recovered_def panicMessage_def Let_def)
  have p: "phrasesOfDoc L dg = ([], Some (recovered v))"
    using b by (simp add: phrasesOfDoc_def)
  have d: "(\<nexists>xs ys. panicMessage v = xs @ ''malformed hex string'' @ ys)
              \<Longrightarrow> recovered v \<noteq> ''reader paniced: malformed hex string''"
  proof
    assume n: "\<nexists>xs ys. panicMessage v = xs @ ''malformed hex string'' @ ys"
      and e: "recovered v = ''reader paniced: malformed hex string''"
    from n r have "recovered v = ''reader paniced: '' @ panicMessage v" by simp
    with e have "panicMessage v = ''malformed hex string''" by simp
    then have "panicMessage v = [] @ ''malformed hex string'' @ []" by simp
    with n show False by blast
  qed
  show ?thesis
    using p r d by (auto simp: title_def)
qed

theorem C9_witness:
  "panicsWith (Inr (Inr brokenDoc)) (PanicError ''malformed hex string: 6z'')
   \<and> phrasesOfDoc testLib (Inr (Inr brokenDoc))
       = ([], Some ''reader paniced: malformed hex string'')"
proof -
  have h: "panicsWith (Inr (Inr brokenDoc)) (PanicError ''malformed hex string: 6z'')"
    by (simp add: panicsWith_def findFirstPage.simps [of _ 1] brokenDoc_def)
  have "panicMessage (PanicError ''malformed hex string: 6z'')
          = [] @ ''malformed hex string'' @ '': 6z''"
    by (simp add: panicMessage_def)
  then have "\<exists>xs ys. panicMessage (PanicError ''malformed hex string: 6z'')
                 = xs @ ''malformed hex string'' @ ys"
    by blast
  then show ?thesis
    using h C9_panic_becomes_error [OF h, of testLib] by simp
qed

section \<open>Properties of the decoder, the encoder and \<open>printable\<close>\<close>

lemma not_bit_small: "0 \<le> y \<Longrightarrow> y < 2 ^ k \<Longrightarrow> k \<le> n \<Longrightarrow> \<not> bit (y::int) n"
proof -
  assume a: "0 \<le> y" "y < 2 ^ k" "k \<le> n"
  have "(2::int) ^ k \<le> 2 ^ n" using a(3) by (simp add: power_increasing)
  then have "y < 2 ^ n" using a(2) by linarith
  then have "y div 2 ^ n = 0" using a(1) by simp
  then show ?thesis by (simp add: bit_iff_odd)
qed

lemma or_add_int: "0 \<le> y \<Longrightarrow> y < 2 ^ k \<Longrightarrow> push_bit k m OR y = push_bit k m + (y::int)"
proof -
  assume a: "0 \<le> y" "y < 2 ^ k"
  have "\<And>n. \<not> bit (push_bit k m) n \<or> \<not> bit y n"
    using not_bit_small [OF a] by (auto simp: bit_push_bit_iff)
  then show ?thesis by (simp add: disjunctive_add)
qed

lemma and63: "(x::int) AND 0x3F = x mod 64"
proof -
  have "(0x3F::int) = mask 6" by (simp add: mask_eq_exp_minus_1)
  then have "x AND 0x3F = take_bit 6 x" by (simp add: take_bit_eq_mask)
  then show ?thesis by (simp add: take_bit_eq_mod)
qed

lemma or80: "0 \<le> y \<Longrightarrow> y < 64 \<Longrightarrow> (0x80::int) OR y = 0x80 + y"
  using or_add_int [of y 6 2] by simp

lemma orC0: "0 \<le> y \<Longrightarrow> y < 32 \<Longrightarrow> (0xC0::int) OR y = 0xC0 + y"
  using or_add_int [of y 5 6] by simp

lemma orE0: "0 \<le> y \<Longrightarrow> y < 16 \<Longrightarrow> (0xE0::int) OR y = 0xE0 + y"
  using or_add_int [of y 4 14] by simp

lemma orF0: "0 \<le> y \<Longrightarrow> y < 8 \<Longrightarrow> (0xF0::int) OR y = 0xF0 + y"
  using or_add_int [of y 3 30] by simp

lemma byte_char_of: "0 \<le> n \<Longrightarrow> n < 256 \<Longrightarrow> byte (char_of (n::int)) = n"
  by (simp add: byte_def)


lemma drop6: "drop_bit 6 (r::int) = r div 64" by (simp add: drop_bit_eq_div)
lemma drop12: "drop_bit 12 (r::int) = r div 4096" by (simp add: drop_bit_eq_div)
lemma drop18: "drop_bit 18 (r::int) = r div 262144" by (simp add: drop_bit_eq_div)

lemma decode1:
  "byte b0 < 0x80 \<Longrightarrow> DecodeRuneInString (b0 # rest) = (byte b0, 1)"
  by (simp add: DecodeRuneInString_def first_def)

lemma decode2:
  "0xC2 \<le> byte b0 \<Longrightarrow> byte b0 \<le> 0xDF \<Longrightarrow> 0x80 \<le> byte b1 \<Longrightarrow> byte b1 \<le> 0xBF \<Longrightarrow>
   snd (DecodeRuneInString (b0 # b1 # rest)) = 2"
  by (simp add: DecodeRuneInString_def first_def acceptRanges_def)

lemma first_3: "0xE1 \<le> b \<Longrightarrow> b \<le> 0xEF \<Longrightarrow> b \<noteq> 0xED \<Longrightarrow> first b = 0x03"
  by (auto simp: first_def)

lemma first_4: "0xF1 \<le> b \<Longrightarrow> b \<le> 0xF3 \<Longrightarrow> first b = 0x04"
  by (auto simp: first_def)

lemma first_E0: "first 0xE0 = 0x13" by (simp add: first_def)
lemma first_ED: "first 0xED = 0x23" by (simp add: first_def)
lemma first_F0: "first 0xF0 = 0x34" by (simp add: first_def)
lemma first_F4: "first 0xF4 = 0x44" by (simp add: first_def)

lemma decode3:
  assumes "0xE0 \<le> byte b0" "byte b0 \<le> 0xEF" "0x80 \<le> byte b1" "byte b1 \<le> 0xBF"
   "byte b0 = 0xE0 \<longrightarrow> 0xA0 \<le> byte b1" "byte b0 = 0xED \<longrightarrow> byte b1 \<le> 0x9F"
   "0x80 \<le> byte b2" "byte b2 \<le> 0xBF"
  shows "snd (DecodeRuneInString (b0 # b1 # b2 # rest)) = 3"
proof -
  consider "byte b0 = 0xE0" | "byte b0 = 0xED" | "0xE1 \<le> byte b0 \<and> byte b0 \<noteq> 0xED"
    using assms(1) by fastforce
  then show ?thesis
  proof cases
    case 1
    then show ?thesis using assms
      by (simp add: DecodeRuneInString_def Let_def acceptRanges_def first_E0)
  next
    case 2
    then show ?thesis using assms
      by (simp add: DecodeRuneInString_def Let_def acceptRanges_def first_ED)
  next
    case 3
    then have "first (byte b0) = 0x03" using assms(2) by (simp add: first_3)
    then show ?thesis using assms
      by (simp add: DecodeRuneInString_def Let_def acceptRanges_def)
  qed
qed

lemma decode4:
  assumes "0xF0 \<le> byte b0" "byte b0 \<le> 0xF4" "0x80 \<le> byte b1" "byte b1 \<le> 0xBF"
   "byte b0 = 0xF0 \<longrightarrow> 0x90 \<le> byte b1" "byte b0 = 0xF4 \<longrightarrow> byte b1 \<le> 0x8F"
   "0x80 \<le> byte b2" "byte b2 \<le> 0xBF" "0x80 \<le> byte b3" "byte b3 \<le> 0xBF"
  shows "snd (DecodeRuneInString (b0 # b1 # b2 # b3 # rest)) = 4"
proof -
  consider "byte b0 = 0xF0" | "byte b0 = 0xF4" | "0xF1 \<le> byte b0 \<and> byte b0 \<le> 0xF3"
    using assms(1,2) by fastforce
  then show ?thesis
  proof cases
    case 1
    then show ?thesis using assms
      by (simp add: DecodeRuneInString_def Let_def acceptRanges_def first_F0)
  next
    case 2
    then show ?thesis using assms
      by (simp add: DecodeRuneInString_def Let_def acceptRanges_def first_F4)
  next
    case 3
    then have "first (byte b0) = 0x04" by (simp add: first_4)
    then show ?thesis using assms
      by (simp add: DecodeRuneInString_def Let_def acceptRanges_def)
  qed
qed

lemma mod64_id: "0 \<le> x \<Longrightarrow> x < 64 \<Longrightarrow> (x::int) mod 64 = x"
  by simp

lemma range_E0: "0x800 \<le> r \<Longrightarrow> r \<le> 0xFFFF \<Longrightarrow> (r::int) div 4096 = 0 \<Longrightarrow> 0x20 \<le> (r div 64) mod 64"
proof -
  assume a: "0x800 \<le> r" "r \<le> 0xFFFF" "r div 4096 = 0"
  have "r < 4096" using a by linarith
  then have "32 \<le> r div 64 \<and> r div 64 < 64" using a(1) by linarith
  then show ?thesis by (simp add: mod64_id)
qed

lemma range_D: "832 \<le> x \<Longrightarrow> x \<le> 863 \<Longrightarrow> (x::int) mod 64 \<le> 31"
  by presburger

lemma range_10: "256 \<le> x \<Longrightarrow> x \<le> 271 \<Longrightarrow> (x::int) mod 64 \<le> 15"
  by presburger

lemma range_ED: "0x800 \<le> r \<Longrightarrow> r \<le> 0xFFFF \<Longrightarrow> \<not> (0xD800 \<le> r \<and> r \<le> 0xDFFF) \<Longrightarrow> (r::int) div 4096 = 13 \<Longrightarrow> (r div 64) mod 64 \<le> 0x1F"
proof -
  assume a: "0x800 \<le> r" "r \<le> 0xFFFF" "\<not> (0xD800 \<le> r \<and> r \<le> 0xDFFF)" "r div 4096 = 13"
  have "53248 \<le> r \<and> r < 57344" using a(4) by linarith
  then have "53248 \<le> r \<and> r \<le> 55295" using a(3) by linarith
  then have "832 \<le> r div 64 \<and> r div 64 \<le> 863" by linarith
  then show ?thesis by (simp add: range_D)
qed

lemma range_F0: "0x10000 \<le> r \<Longrightarrow> r \<le> 0x10FFFF \<Longrightarrow> (r::int) div 262144 = 0 \<Longrightarrow> 0x10 \<le> (r div 4096) mod 64"
proof -
  assume a: "0x10000 \<le> r" "r \<le> 0x10FFFF" "r div 262144 = 0"
  have "r < 262144" using a by linarith
  then have "16 \<le> r div 4096 \<and> r div 4096 < 64" using a(1) by linarith
  then show ?thesis by (simp add: mod64_id)
qed

lemma range_F4: "0x10000 \<le> r \<Longrightarrow> r \<le> 0x10FFFF \<Longrightarrow> (r::int) div 262144 = 4 \<Longrightarrow> (r div 4096) mod 64 \<le> 0x0F"
proof -
  assume a: "0x10000 \<le> r" "r \<le> 0x10FFFF" "r div 262144 = 4"
  have "1048576 \<le> r" using a(3) by linarith
  then have "256 \<le> r div 4096 \<and> r div 4096 \<le> 271" using a(2) by linarith
  then show ?thesis by (simp add: range_10)
qed


lemma cont_byte: "0x80 \<le> byte (char_of (0x80 OR (x AND 0x3F))) \<and> byte (char_of (0x80 OR (x AND 0x3F))) \<le> 0xBF"
  and cont_byte_val: "byte (char_of (0x80 OR (x AND 0x3F))) = 0x80 + x mod 64"
proof -
  have m: "0 \<le> x mod 64 \<and> x mod 64 < 64" by simp
  then have "(0x80::int) OR (x AND 0x3F) = 0x80 + x mod 64"
    by (simp add: and63 or80)
  then show v: "byte (char_of (0x80 OR (x AND 0x3F))) = 0x80 + x mod 64"
    using m by (simp add: byte_char_of)
  show "0x80 \<le> byte (char_of (0x80 OR (x AND 0x3F))) \<and> byte (char_of (0x80 OR (x AND 0x3F))) \<le> 0xBF"
    using v m by simp
qed

lemma encode3_width:
  assumes "0x800 \<le> r" "r \<le> 0xFFFF" "\<not> (0xD800 \<le> r \<and> r \<le> 0xDFFF)"
  shows "snd (DecodeRuneInString (encode3 r @ rest)) = 3"
proof -
  let ?q = "r div 4096"
  let ?b0 = "char_of (0xE0 OR drop_bit 12 r)"
  let ?b1 = "char_of (0x80 OR (drop_bit 6 r AND 0x3F))"
  let ?b2 = "char_of (0x80 OR (r AND 0x3F))"
  have q: "0 \<le> ?q \<and> ?q < 16" using assms by linarith
  have b0: "byte ?b0 = 0xE0 + ?q"
    using q by (simp add: drop12 orE0 byte_char_of)
  have b1: "byte ?b1 = 0x80 + (r div 64) mod 64"
    by (simp add: cont_byte_val drop6)
  have m: "0 \<le> (r div 64) mod 64 \<and> (r div 64) mod 64 < 64" by simp
  have p1: "0xE0 \<le> byte ?b0" using b0 q by linarith
  have p2: "byte ?b0 \<le> 0xEF" using b0 q by linarith
  have p3: "0x80 \<le> byte ?b1" using b1 m by linarith
  have p4: "byte ?b1 \<le> 0xBF" using b1 m by linarith
  have p5: "byte ?b0 = 0xE0 \<longrightarrow> 0xA0 \<le> byte ?b1"
  proof
    assume "byte ?b0 = 0xE0"
    then have "?q = 0" using b0 by linarith
    then have "0x20 \<le> (r div 64) mod 64" using assms range_E0 by blast
    then show "0xA0 \<le> byte ?b1" using b1 by linarith
  qed
  have p6: "byte ?b0 = 0xED \<longrightarrow> byte ?b1 \<le> 0x9F"
  proof
    assume "byte ?b0 = 0xED"
    then have "?q = 13" using b0 by linarith
    then have "(r div 64) mod 64 \<le> 0x1F" using assms range_ED by blast
    then show "byte ?b1 \<le> 0x9F" using b1 by linarith
  qed
  have p7: "0x80 \<le> byte ?b2" using cont_byte [of r] by blast
  have p8: "byte ?b2 \<le> 0xBF" using cont_byte [of r] by blast
  have "snd (DecodeRuneInString (?b0 # ?b1 # ?b2 # rest)) = 3"
    by (rule decode3 [OF p1 p2 p3 p4 p5 p6 p7 p8])
  then show ?thesis
    by (simp only: encode3_def append_Cons append_Nil)
qed

lemma RuneError_width: "snd (DecodeRuneInString (encode3 RuneError @ rest)) = 3"
  by (rule encode3_width) (simp_all add: RuneError_def)

lemma length_encode3: "length (encode3 r) = 3"
  by (simp add: encode3_def)

lemma EncodeRune_width:
  assumes "- (2 ^ 31) \<le> r"
  shows "snd (DecodeRuneInString (EncodeRune r @ rest)) = length (EncodeRune r)"
proof -
  consider "0 \<le> r \<and> r \<le> 0x7F" | "0x80 \<le> r \<and> r \<le> 0x7FF"
    | "r < 0 \<or> r > 0x10FFFF \<or> (0xD800 \<le> r \<and> r \<le> 0xDFFF)"
    | "0x800 \<le> r \<and> r \<le> 0xFFFF \<and> \<not> (0xD800 \<le> r \<and> r \<le> 0xDFFF)"
    | "0x10000 \<le> r \<and> r \<le> 0x10FFFF"
    by linarith
  then show ?thesis
  proof cases
    case 1
    then have "byte (char_of r) = r" by (simp add: byte_char_of)
    then show ?thesis using 1 by (simp add: EncodeRune_def decode1)
  next
    case 2
    let ?q = "r div 64"
    have q: "2 \<le> ?q \<and> ?q < 32" using 2 by linarith
    have b0: "byte (char_of (0xC0 OR drop_bit 6 r)) = 0xC0 + ?q"
      using q by (simp add: drop6 orC0 byte_char_of)
    have p1: "0xC2 \<le> byte (char_of (0xC0 OR drop_bit 6 r))" using b0 q by linarith
    have p2: "byte (char_of (0xC0 OR drop_bit 6 r)) \<le> 0xDF" using b0 q by linarith
    have p3: "0x80 \<le> byte (char_of (0x80 OR (r AND 0x3F)))" using cont_byte [of r] by blast
    have p4: "byte (char_of (0x80 OR (r AND 0x3F))) \<le> 0xBF" using cont_byte [of r] by blast
    have "snd (DecodeRuneInString (char_of (0xC0 OR drop_bit 6 r) # char_of (0x80 OR (r AND 0x3F)) # rest)) = 2"
      by (rule decode2 [OF p1 p2 p3 p4])
    then show ?thesis using 2 by (simp add: EncodeRune_def)
  next
    case 3
    then have "EncodeRune r = encode3 RuneError"
      using assms by (auto simp: EncodeRune_def Let_def)
    then show ?thesis by (simp add: RuneError_width length_encode3)
  next
    case 4
    then have "EncodeRune r = encode3 r"
      by (auto simp: EncodeRune_def Let_def)
    then show ?thesis using 4 by (simp add: encode3_width length_encode3)
  next
    case 5
    let ?q = "r div 262144"
    have q: "0 \<le> ?q \<and> ?q \<le> 4" using 5 by linarith
    have b0: "byte (char_of (0xF0 OR drop_bit 18 r)) = 0xF0 + ?q"
      using q by (simp add: drop18 orF0 byte_char_of)
    have b1: "byte (char_of (0x80 OR (drop_bit 12 r AND 0x3F))) = 0x80 + (r div 4096) mod 64"
      by (simp add: cont_byte_val drop12)
    have m: "0 \<le> (r div 4096) mod 64 \<and> (r div 4096) mod 64 < 64" by simp
    let ?b0 = "char_of (0xF0 OR drop_bit 18 r)"
    let ?b1 = "char_of (0x80 OR (drop_bit 12 r AND 0x3F))"
    let ?b2 = "char_of (0x80 OR (drop_bit 6 r AND 0x3F))"
    let ?b3 = "char_of (0x80 OR (r AND 0x3F))"
    have p1: "0xF0 \<le> byte ?b0" using b0 q by linarith
    have p2: "byte ?b0 \<le> 0xF4" using b0 q by linarith
    have p3: "0x80 \<le> byte ?b1" using b1 m by linarith
    have p4: "byte ?b1 \<le> 0xBF" using b1 m by linarith
    have p5: "byte ?b0 = 0xF0 \<longrightarrow> 0x90 \<le> byte ?b1"
    proof
      assume "byte ?b0 = 0xF0"
      then have "?q = 0" using b0 by linarith
      then have "0x10 \<le> (r div 4096) mod 64" using 5 range_F0 by blast
      then show "0x90 \<le> byte ?b1" using b1 by linarith
    qed
    have p6: "byte ?b0 = 0xF4 \<longrightarrow> byte ?b1 \<le> 0x8F"
    proof
      assume "byte ?b0 = 0xF4"
      then have "?q = 4" using b0 by linarith
      then have "(r div 4096) mod 64 \<le> 0x0F" using 5 range_F4 by blast
      then show "byte ?b1 \<le> 0x8F" using b1 by linarith
    qed
    have p7: "0x80 \<le> byte ?b2" using cont_byte [of "drop_bit 6 r"] by blast
    have p8: "byte ?b2 \<le> 0xBF" using cont_byte [of "drop_bit 6 r"] by blast
    have p9: "0x80 \<le> byte ?b3" using cont_byte [of r] by blast
    have p10: "byte ?b3 \<le> 0xBF" using cont_byte [of r] by blast
    have "snd (DecodeRuneInString (?b0 # ?b1 # ?b2 # ?b3 # rest)) = 4"
      by (rule decode4 [OF p1 p2 p3 p4 p5 p6 p7 p8 p9 p10])
    then show ?thesis using 5 by (simp add: EncodeRune_def)
  qed
qed

lemma EncodeRune_nonempty: "EncodeRune r \<noteq> []"
  by (simp add: EncodeRune_def encode3_def Let_def)

lemma byte_nonneg: "0 \<le> byte c"
proof -
  have "byte c = int (of_char c)" by (simp add: byte_def of_nat_of_char)
  then show ?thesis by simp
qed

lemma DecodeRune_nonneg: "0 \<le> fst (DecodeRuneInString s)"
  by (simp add: DecodeRuneInString_def Let_def RuneError_def byte_nonneg)

lemma rangeString_encode:
  assumes "- (2 ^ 31) \<le> r"
  shows "rangeString (EncodeRune r @ rest) =
           (fst (DecodeRuneInString (EncodeRune r @ rest)), EncodeRune r) # rangeString rest"
  using EncodeRune_width [OF assms, of rest] EncodeRune_nonempty [of r]
  by (subst rangeString.simps) (simp add: Let_def)

lemma rangeString_stringOfRunes:
  "\<forall>r \<in> set rs. 0 \<le> r \<Longrightarrow> length (rangeString (stringOfRunes rs @ rest)) = length rs + length (rangeString rest)"
proof (induction rs)
  case Nil
  then show ?case by (simp add: stringOfRunes_def)
next
  case (Cons r rs)
  have r: "- (2 ^ 31) \<le> r" using Cons.prems by simp
  have "stringOfRunes (r # rs) @ rest = EncodeRune r @ (stringOfRunes rs @ rest)"
    by (simp add: stringOfRunes_def)
  then show ?case
    using Cons rangeString_encode [OF r] by simp
qed

lemma printable_loop_nonneg:
  "\<forall>r \<in> set runes. 0 \<le> r \<Longrightarrow> \<forall>r \<in> set (printable_loop L s runes). 0 \<le> r"
proof (induction L s runes rule: printable_loop.induct)
  case (1 L s runes)
  show ?case
    using 1 DecodeRune_nonneg [of s]
    by (subst printable_loop.simps) (auto simp: Let_def space_def)
qed

lemma printable_loop_length:
  "length (printable_loop L s runes) = length runes + decodeSteps s"
proof (induction L s runes rule: printable_loop.induct)
  case (1 L s runes)
  show ?case
    using 1
    by (subst printable_loop.simps, subst decodeSteps.simps) (auto simp: Let_def)
qed

lemma decodeSteps_le: "decodeSteps s \<le> length s"
proof (induction s rule: decodeSteps.induct)
  case (1 s)
  show ?case
  proof (cases "snd (DecodeRuneInString s) = 0")
    case True
    then show ?thesis by (subst decodeSteps.simps) simp
  next
    case False
    then have "s \<noteq> []" by (simp add: DecodeRune_width_zero)
    then have "length (drop (snd (DecodeRuneInString s)) s) < length s"
      using DecodeRune_progress [of s] by simp
    then show ?thesis
      using 1 False by (subst decodeSteps.simps) (simp add: Let_def)
  qed
qed

text \<open>
  Claim C7. \<open>printable\<close> is a total function: its loop is defined by recursion on a
  string that gets shorter at every step. A decode step on a string that is not
  empty consumes at least one byte and no more than there are; the number of steps
  is at most the length of the input, whatever bytes it ends with; the loop appends
  one rune per step, and the output has as many characters (runes, counted as
  \<open>utf8.RuneCountInString\<close> does) as steps were taken.
\<close>

theorem C7_printable_steps:
  "(s \<noteq> [] \<longrightarrow> 1 \<le> snd (DecodeRuneInString s) \<and> snd (DecodeRuneInString s) \<le> length s)
   \<and> decodeSteps s \<le> length s
   \<and> length (printable_loop L s []) = decodeSteps s
   \<and> RuneCountInString (printable L s) = decodeSteps s"
proof -
  have a: "s \<noteq> [] \<longrightarrow> 1 \<le> snd (DecodeRuneInString s) \<and> snd (DecodeRuneInString s) \<le> length s"
    using DecodeRune_width_zero [of s] DecodeRune_width_le_length [of s] by auto
  have c: "length (printable_loop L s []) = decodeSteps s"
    by (simp add: printable_loop_length)
  have "\<forall>r \<in> set (printable_loop L s []). 0 \<le> r"
    by (rule printable_loop_nonneg) simp
  then have "length (rangeString (stringOfRunes (printable_loop L s []) @ [])) =
      length (printable_loop L s []) + length (rangeString [])"
    by (rule rangeString_stringOfRunes)
  then have d: "RuneCountInString (printable L s) = decodeSteps s"
    using c by (simp add: RuneCountInString_def printable_def rangeString.simps [of "[]"]
        DecodeRuneInString_def)
  show ?thesis
    by (intro conjI a decodeSteps_le c d)
qed

theorem C7_witness:
  "truncatedText \<noteq> []
   \<and> snd (DecodeRuneInString truncatedText) = 1
   \<and> decodeSteps truncatedText = 4
   \<and> length truncatedText = 5
   \<and> RuneCountInString (printable testLib truncatedText) = 4"
proof -
  have d: "decodeSteps truncatedText = 4"
    by code_simp
  have "truncatedText \<noteq> []" "length truncatedText = 5"
    by (simp_all add: truncatedText_def)
  then show ?thesis
    using C7_printable_steps [of truncatedText testLib] d
    by (simp add: truncatedText_def DecodeRuneInString_def first_def byte_def)
qed

section \<open>Properties of the library's sort\<close>

lemma insertion_inner_step:
  "insertion_inner cmp (ys @ y # x # post) 0 (int (Suc (length ys))) =
     (if cmp x y < 0 then insertion_inner cmp (ys @ x # y # post) 0 (int (length ys))
      else ys @ y # x # post)"
proof -
  define J where "J = int (Suc (length ys))"
  define D where "D = ys @ y # x # post"
  have m: "J - 1 = int (length ys)" by (simp add: J_def)
  have nJ: "nat J = Suc (length ys)" by (simp add: J_def)
  have g1: "get_at D J = x"
    by (simp add: get_at_def nJ D_def nth_append)
  have g2: "get_at D (int (length ys)) = y"
    by (simp add: get_at_def D_def nth_append)
  have s: "swap D J (int (length ys)) = ys @ x # y # post"
    by (simp add: swap_def g1 g2 nJ) (simp add: D_def list_update_append)
  have p: "J > 0" by (simp add: J_def)
  have "insertion_inner cmp D 0 J =
      (if J > 0 \<and> cmp (get_at D J) (get_at D (J - 1)) < 0
       then insertion_inner cmp (swap D J (J - 1)) 0 (J - 1) else D)"
    by (rule insertion_inner.simps)
  then have "insertion_inner cmp D 0 J =
      (if cmp x y < 0 then insertion_inner cmp (ys @ x # y # post) 0 (int (length ys)) else D)"
    by (simp add: g1 g2 s p m)
  then show ?thesis by (simp only: J_def D_def)
qed

lemma insertion_inner_eq:
  "insertion_inner cmp (pre @ x # post) 0 (int (length pre)) = rev (insert_back cmp x (rev pre)) @ post"
proof (induction pre arbitrary: post rule: rev_induct)
  case Nil
  show ?case by (subst insertion_inner.simps) simp
next
  case (snoc y ys)
  have "insertion_inner cmp ((ys @ [y]) @ x # post) 0 (int (length (ys @ [y]))) =
      insertion_inner cmp (ys @ y # x # post) 0 (int (Suc (length ys)))"
    by simp
  also have "\<dots> = (if cmp x y < 0 then insertion_inner cmp (ys @ x # y # post) 0 (int (length ys))
      else ys @ y # x # post)"
    by (rule insertion_inner_step)
  also have "\<dots> = rev (insert_back cmp x (rev (ys @ [y]))) @ post"
    using snoc [of "y # post"] by simp
  finally show ?case .
qed

lemma insertion_outer_eq:
  "insertion_outer cmp (pre @ post) 0 (int (length (pre @ post))) (int (length pre)) =
     rev (foldl (\<lambda>acc x. insert_back cmp x acc) (rev pre) post)"
proof (induction post arbitrary: pre)
  case Nil
  show ?case by (subst insertion_outer.simps) simp
next
  case (Cons x post)
  have "insertion_outer cmp (pre @ x # post) 0 (int (length (pre @ x # post))) (int (length pre)) =
      insertion_outer cmp (insertion_inner cmp (pre @ x # post) 0 (int (length pre))) 0
        (int (length (pre @ x # post))) (int (length pre) + 1)"
    by (subst insertion_outer.simps) simp
  also have "\<dots> = insertion_outer cmp (rev (insert_back cmp x (rev pre)) @ post) 0
        (int (length (rev (insert_back cmp x (rev pre)) @ post)))
        (int (length (rev (insert_back cmp x (rev pre)))))"
  proof -
    have "length (insert_back cmp x zs) = Suc (length zs)" for zs
      by (induction zs) auto
    then show ?thesis by (simp add: insertion_inner_eq add.commute)
  qed
  also have "\<dots> = rev (foldl (\<lambda>acc x. insert_back cmp x acc) (rev (rev (insert_back cmp x (rev pre)))) post)"
    by (rule Cons)
  finally show ?case by simp
qed

lemma insertionSortCmpFunc_eq:
  "insertionSortCmpFunc cmp xs 0 (int (length xs)) = rev (foldl (\<lambda>acc x. insert_back cmp x acc) [] xs)"
proof (cases xs)
  case Nil
  then show ?thesis
    by (simp add: insertionSortCmpFunc_def insertion_outer.simps [of _ _ _ 0])
next
  case (Cons x post)
  have "insertion_outer cmp ([x] @ post) 0 (int (length ([x] @ post))) (int (length [x])) =
     rev (foldl (\<lambda>acc x. insert_back cmp x acc) (rev [x]) post)"
    by (rule insertion_outer_eq)
  then show ?thesis using Cons by (simp add: insertionSortCmpFunc_def)
qed

lemma SortFunc_short:
  "length xs \<le> 12 \<Longrightarrow> SortFunc Next cmp xs = insertionSortCmpFunc cmp xs 0 (int (length xs))"
  by (simp add: SortFunc_def pdqsortCmpFunc.simps pdqsort_step_def)

lemma mset_insert_back: "mset (insert_back cmp x zs) = add_mset x (mset zs)"
  by (induction zs) auto

lemma set_insert_back: "set (insert_back cmp x zs) = insert x (set zs)"
  by (induction zs) auto

lemma filter_insert_back:
  "filter (\<lambda>p. fontSize p = s) (insert_back byFontSize x zs) =
     (if fontSize x = s then x # filter (\<lambda>p. fontSize p = s) zs else filter (\<lambda>p. fontSize p = s) zs)"
  by (induction zs) (auto simp: byFontSize_def cmp_Compare_def)

lemma sorted_insert_back:
  "sorted_wrt (\<lambda>a b. fontSize a \<le> fontSize b) zs \<Longrightarrow>
   sorted_wrt (\<lambda>a b. fontSize a \<le> fontSize b) (insert_back byFontSize x zs)"
  by (induction zs) (auto simp: byFontSize_def cmp_Compare_def set_insert_back split: if_splits)

lemma foldl_insert_back:
  "mset (foldl (\<lambda>acc x. insert_back byFontSize x acc) zs xs) = mset zs + mset xs
   \<and> filter (\<lambda>p. fontSize p = s) (foldl (\<lambda>acc x. insert_back byFontSize x acc) zs xs) =
       rev (filter (\<lambda>p. fontSize p = s) xs) @ filter (\<lambda>p. fontSize p = s) zs
   \<and> (sorted_wrt (\<lambda>a b. fontSize a \<le> fontSize b) zs \<longrightarrow>
        sorted_wrt (\<lambda>a b. fontSize a \<le> fontSize b) (foldl (\<lambda>acc x. insert_back byFontSize x acc) zs xs))"
proof (induction xs arbitrary: zs)
  case Nil
  show ?case by simp
next
  case (Cons x xs)
  show ?case
    using Cons [of "insert_back byFontSize x zs"]
    by (simp add: mset_insert_back filter_insert_back sorted_insert_back)
qed

end
